theory Spec2Isabelle
  imports Main "HOL-Library.Word" "HOL-Library.Product_Lexorder"
begin

section \<open>The BlockDAG framework of core/blockdag/blockdag.go\<close>

text \<open>
  The Go code keeps every block once, behind pointers, and finds it by its hash. The
  embedding is a store: \<open>blocks\<close> maps a hash to the block record, and a pointer to a
  block is the block's hash. \<open>uint\<close> is the 64-bit unsigned integer of the usual
  targets, so \<open>+\<close> and \<open>-\<close> wrap around as they do in Go.
\<close>

subsection \<open>Data\<close>

type_synonym hash = "256 word"

type_synonym uint = "64 word"

text \<open>
  \<open>NilPointerDereference\<close> is the run-time panic of Go. The two other values belong
  to the embedding: \<open>DanglingReference\<close> is a hash that stands for a pointer to a block
  which the store does not hold (in Go the pointer itself keeps the block), and
  \<open>OutOfFuel\<close> is a traversal that was cut off by the bound on its depth.
\<close>

datatype error = NilPointerDereference | DanglingReference | OutOfFuel

text \<open>
  Modelled from the spec: \<open>dag.HashSet\<close> of the library qitmeer-lib is not among the
  sources. The spec describes it as a set of block identifiers with an insertion-ordered
  companion sequence, so it is a list without repetition in insertion order; a loop over
  \<open>GetMap()\<close> visits the list from its head.
\<close>

type_synonym HashSet = "hash list"

definition NewHashSet :: HashSet where
  "NewHashSet = []"

definition HashSet_Has :: "HashSet \<Rightarrow> hash \<Rightarrow> bool" where
  "HashSet_Has s h = (h \<in> set s)"

definition HashSet_Add :: "HashSet \<Rightarrow> hash \<Rightarrow> HashSet" where
  "HashSet_Add s h = (if HashSet_Has s h then s else s @ [h])"

definition HashSet_Remove :: "HashSet \<Rightarrow> hash \<Rightarrow> HashSet" where
  "HashSet_Remove s h = removeAll h s"

definition HashSet_IsEmpty :: "HashSet \<Rightarrow> bool" where
  "HashSet_IsEmpty s = (s = [])"

definition HashSet_Exclude :: "HashSet \<Rightarrow> HashSet \<Rightarrow> HashSet" where
  "HashSet_Exclude s other = filter (\<lambda>h. \<not> HashSet_Has other h) s"

text \<open>
  Modelled from the spec: the \<open>Block\<close> record of block.go is not among the sources.
  The fields are those of section 3 of the spec; \<open>parents\<close> and \<open>children\<close> are
  pointers to hash sets and start as nil.
\<close>

record Block =
  b_id :: uint
  b_hash :: hash
  b_parents :: "HashSet option"
  b_children :: "HashSet option"
  b_mainParent :: "hash option"
  b_weight :: uint
  b_layer :: uint
  b_order :: uint
  b_height :: uint

definition Block_HasChildren :: "Block \<Rightarrow> bool" where
  "Block_HasChildren b = (case b_children b of None \<Rightarrow> False | Some cs \<Rightarrow> cs \<noteq> [])"

definition Block_HasParents :: "Block \<Rightarrow> bool" where
  "Block_HasParents b = (case b_parents b of None \<Rightarrow> False | Some ps \<Rightarrow> ps \<noteq> [])"

definition Block_AddChild :: "Block \<Rightarrow> hash \<Rightarrow> Block" where
  "Block_AddChild b c =
     b\<lparr>b_children := Some (HashSet_Add (case b_children b of None \<Rightarrow> NewHashSet | Some cs \<Rightarrow> cs) c)\<rparr>"

text \<open>
  \<open>IBlockData\<close>: the hash, the declared parents (a slice of pointers, each of which
  may be nil) and the timestamp in unix seconds.
\<close>

record IBlockData =
  d_hash :: hash
  d_parents :: "hash option list"
  d_timestamp :: int

text \<open>
  The framework's aggregate. \<open>instanceState\<close> is the private state of the bound
  strategy variant; \<open>lastTime\<close> is kept in unix seconds.
\<close>

record 'i BlockDAG =
  genesis :: hash
  blocks :: "hash \<rightharpoonup> Block"
  blockTotal :: uint
  tips :: "HashSet option"
  lastTime :: int
  order :: "uint \<rightharpoonup> hash"
  instanceState :: 'i

text \<open>
  The strategy variants (Phantom, Phantom_v2, Conflux, Spectre) are not among the
  sources, so the interface \<open>IBlockDAG\<close> is a parameter: the record of the functions
  the framework calls. \<open>CreateBlock\<close> wraps the pointer to the base block in the
  variant's own record and the framework reaches the base block through the wrapper, so
  it does not appear here.
\<close>

record 'i IBlockDAG =
  inst_AddBlock :: "'i BlockDAG \<Rightarrow> hash \<Rightarrow> hash list option \<times> 'i BlockDAG"
  inst_GetBlockByOrder :: "'i BlockDAG \<Rightarrow> uint \<Rightarrow> hash option"
  inst_IsOnMainChain :: "'i BlockDAG \<Rightarrow> Block option \<Rightarrow> bool"
  inst_GetMainChainTip :: "'i BlockDAG \<Rightarrow> Block option"

subsection \<open>Lookup\<close>

definition GetBlock :: "'i BlockDAG \<Rightarrow> hash option \<Rightarrow> Block option" where
  "GetBlock bd h = (case h of None \<Rightarrow> None | Some k \<Rightarrow> blocks bd k)"

definition HasBlock :: "'i BlockDAG \<Rightarrow> hash option \<Rightarrow> bool" where
  "HasBlock bd h = (GetBlock bd h \<noteq> None)"

fun HasBlocks :: "'i BlockDAG \<Rightarrow> hash option list \<Rightarrow> bool" where
  "HasBlocks bd [] = True"
| "HasBlocks bd (h # hs) = (if \<not> HasBlock bd h then False else HasBlocks bd hs)"

definition GetBlockTotal :: "'i BlockDAG \<Rightarrow> uint" where
  "GetBlockTotal bd = blockTotal bd"

definition IsDAG :: "'i BlockDAG \<Rightarrow> IBlockData \<Rightarrow> bool" where
  "IsDAG bd b = True"

definition GetLayer :: "'i BlockDAG \<Rightarrow> hash option \<Rightarrow> error + uint" where
  "GetLayer bd h = (case GetBlock bd h of None \<Rightarrow> Inl NilPointerDereference | Some b \<Rightarrow> Inr (b_layer b))"

subsection \<open>AddBlock\<close>

text \<open>
  \<open>updateTips\<close>: the loop visits the tips that were there when it started and removes
  those that have a child by now.
\<close>

fun updateTips_loop :: "'i BlockDAG \<Rightarrow> HashSet \<Rightarrow> hash list \<Rightarrow> error + HashSet" where
  "updateTips_loop bd ts [] = Inr ts"
| "updateTips_loop bd ts (k # ks) =
     (case GetBlock bd (Some k) of
        None \<Rightarrow> Inl NilPointerDereference
      | Some block \<Rightarrow>
          updateTips_loop bd (if Block_HasChildren block then HashSet_Remove ts k else ts) ks)"

definition updateTips :: "'i BlockDAG \<Rightarrow> Block \<Rightarrow> error + 'i BlockDAG" where
  "updateTips bd b =
     (case tips bd of
        None \<Rightarrow> Inr (bd\<lparr>tips := Some (HashSet_Add NewHashSet (b_hash b))\<rparr>)
      | Some ts \<Rightarrow>
          (case updateTips_loop bd ts ts of
             Inl e \<Rightarrow> Inl e
           | Inr ts' \<Rightarrow> Inr (bd\<lparr>tips := Some (HashSet_Add ts' (b_hash b))\<rparr>)))"

text \<open>
  The loop over the declared parents (lines 151 to 162): it links the new block to
  each parent in both directions, takes the first parent as main parent and keeps the
  greatest layer seen. \<open>k\<close> is the index of the loop.
\<close>

fun AddBlock_parents ::
  "'i BlockDAG \<Rightarrow> Block \<Rightarrow> uint \<Rightarrow> nat \<Rightarrow> hash option list \<Rightarrow> error + ('i BlockDAG \<times> Block \<times> uint)" where
  "AddBlock_parents bd block maxLayer k [] = Inr (bd, block, maxLayer)"
| "AddBlock_parents bd block maxLayer k (h # hs) =
     (case h of
        None \<Rightarrow> Inl NilPointerDereference
      | Some hk \<Rightarrow>
     (case GetBlock bd h of
        None \<Rightarrow> Inl NilPointerDereference
      | Some parent \<Rightarrow>
     (case b_parents block of
        None \<Rightarrow> Inl NilPointerDereference
      | Some ps \<Rightarrow>
          let block1 = block\<lparr>b_parents := Some (HashSet_Add ps hk)\<rparr>;
              bd1 = bd\<lparr>blocks := (blocks bd)(hk \<mapsto> Block_AddChild parent (b_hash block))\<rparr>;
              block2 = (if k = 0 then block1\<lparr>b_mainParent := Some (b_hash parent)\<rparr> else block1);
              maxLayer1 = (if maxLayer = 0 \<or> maxLayer < b_layer parent then b_layer parent else maxLayer)
          in AddBlock_parents bd1 block2 maxLayer1 (Suc k) hs)))"

text \<open>Lines 147 to 164: the new block, with its parents when the DAG is not empty.\<close>

definition AddBlock_build :: "'i BlockDAG \<Rightarrow> IBlockData \<Rightarrow> error + ('i BlockDAG \<times> Block)" where
  "AddBlock_build bd b =
     (let block = \<lparr>b_id = GetBlockTotal bd, b_hash = d_hash b, b_parents = None, b_children = None,
                    b_mainParent = None, b_weight = 1, b_layer = 0, b_order = 0, b_height = 0\<rparr>
      in if 0 < GetBlockTotal bd then
           (case AddBlock_parents bd (block\<lparr>b_parents := Some NewHashSet\<rparr>) 0 0 (d_parents b) of
              Inl e \<Rightarrow> Inl e
            | Inr (bd1, block1, maxLayer) \<Rightarrow> Inr (bd1, block1\<lparr>b_layer := maxLayer + 1\<rparr>))
         else Inr (bd, block))"

text \<open>Lines 166 to 181: the block enters the map, the counters and the tips.\<close>

definition AddBlock_store :: "'i BlockDAG \<Rightarrow> Block \<Rightarrow> int \<Rightarrow> error + 'i BlockDAG" where
  "AddBlock_store bd block t =
     (let bd1 = bd\<lparr>blocks := (blocks bd)(b_hash block \<mapsto> block)\<rparr>;
          bd2 = (if GetBlockTotal bd1 = 0 then bd1\<lparr>genesis := b_hash block\<rparr> else bd1);
          bd3 = bd2\<lparr>blockTotal := blockTotal bd2 + 1\<rparr>
      in case updateTips bd3 block of
           Inl e \<Rightarrow> Inl e
         | Inr bd4 \<Rightarrow> Inr (if lastTime bd4 < t then bd4\<lparr>lastTime := t\<rparr> else bd4))"

text \<open>
  The part of \<open>AddBlock\<close> that belongs to the framework, up to the call of the
  strategy: \<open>None\<close> is a rejection, \<open>Some (bd', h)\<close> the state handed to the strategy
  with the hash of the new block.
\<close>

definition AddBlock_frame :: "'i BlockDAG \<Rightarrow> IBlockData option \<Rightarrow> error + ('i BlockDAG \<times> hash) option" where
  "AddBlock_frame bd bo =
     (case bo of
        None \<Rightarrow> Inr None
      | Some b \<Rightarrow>
          if HasBlock bd (Some (d_hash b)) then Inr None
          else if 0 < GetBlockTotal bd \<and> length (d_parents b) = 0 then Inr None
          else if 0 < GetBlockTotal bd \<and> \<not> HasBlocks bd (d_parents b) then Inr None
          else if \<not> IsDAG bd b then Inr None
          else (case AddBlock_build bd b of
                  Inl e \<Rightarrow> Inl e
                | Inr (bd1, block) \<Rightarrow>
                    (case AddBlock_store bd1 block (d_timestamp b) of
                       Inl e \<Rightarrow> Inl e
                     | Inr bd2 \<Rightarrow> Inr (Some (bd2, b_hash block)))))"

text \<open>
  \<open>AddBlock\<close>: the list it returns is the strategy's, and nil on a rejection.
\<close>

definition AddBlock ::
  "'i IBlockDAG \<Rightarrow> 'i BlockDAG \<Rightarrow> IBlockData option \<Rightarrow> error + (hash list option \<times> 'i BlockDAG)" where
  "AddBlock inst bd bo =
     (case AddBlock_frame bd bo of
        Inl e \<Rightarrow> Inl e
      | Inr None \<Rightarrow> Inr (None, bd)
      | Inr (Some (bd1, h)) \<Rightarrow> Inr (inst_AddBlock inst bd1 h))"

subsection \<open>Future set and anticone\<close>

text \<open>
  \<open>GetFutureSet\<close> and \<open>recAnticone\<close> are recursive in Go. The first argument of the
  embedding bounds the depth of the recursion; a call that reaches the bound returns
  \<open>OutOfFuel\<close>.
\<close>

fun GetFutureSet :: "nat \<Rightarrow> 'i BlockDAG \<Rightarrow> HashSet \<Rightarrow> Block option \<Rightarrow> error + HashSet"
  and GetFutureSet_loop :: "nat \<Rightarrow> 'i BlockDAG \<Rightarrow> HashSet \<Rightarrow> hash list \<Rightarrow> error + HashSet" where
  "GetFutureSet 0 bd fs b = Inl OutOfFuel"
| "GetFutureSet (Suc n) bd fs b =
     (case b of
        None \<Rightarrow> Inl NilPointerDereference
      | Some blk \<Rightarrow>
          (case b_children blk of
             None \<Rightarrow> Inr fs
           | Some cs \<Rightarrow> if HashSet_IsEmpty cs then Inr fs else GetFutureSet_loop n bd fs cs))"
| "GetFutureSet_loop n bd fs [] = Inr fs"
| "GetFutureSet_loop n bd fs (k # ks) =
     (if \<not> HashSet_Has fs k then
        (case GetFutureSet n bd (HashSet_Add fs k) (GetBlock bd (Some k)) of
           Inl e \<Rightarrow> Inl e
         | Inr fs1 \<Rightarrow> GetFutureSet_loop n bd fs1 ks)
      else GetFutureSet_loop n bd fs ks)"

fun isVirtualTip :: "Block \<Rightarrow> HashSet \<Rightarrow> HashSet \<Rightarrow> hash list \<Rightarrow> bool" where
  "isVirtualTip b futureSet anticone [] = True"
| "isVirtualTip b futureSet anticone (k # ks) =
     (if k = b_hash b then False
      else if \<not> HashSet_Has futureSet k \<and> \<not> HashSet_Has anticone k then False
      else isVirtualTip b futureSet anticone ks)"

fun recAnticone :: "nat \<Rightarrow> 'i BlockDAG \<Rightarrow> Block \<Rightarrow> HashSet \<Rightarrow> HashSet \<Rightarrow> hash \<Rightarrow> error + HashSet"
  and recAnticone_loop :: "nat \<Rightarrow> 'i BlockDAG \<Rightarrow> Block \<Rightarrow> HashSet \<Rightarrow> HashSet \<Rightarrow> hash list \<Rightarrow> error + HashSet" where
  "recAnticone 0 bd b futureSet anticone h = Inl OutOfFuel"
| "recAnticone (Suc n) bd b futureSet anticone h =
     (if h = b_hash b then Inr anticone
      else
        (case GetBlock bd (Some h) of
           None \<Rightarrow> Inl NilPointerDereference
         | Some node \<Rightarrow>
             if (case b_children node of
                   None \<Rightarrow> True
                 | Some cs \<Rightarrow> if length cs = 0 then True else isVirtualTip b futureSet anticone cs)
             then
               (case b_parents node of
                  None \<Rightarrow> Inl NilPointerDereference
                | Some ps \<Rightarrow>
                    recAnticone_loop n bd b futureSet
                      (if \<not> HashSet_Has futureSet h then HashSet_Add anticone h else anticone) ps)
             else Inr anticone))"
| "recAnticone_loop n bd b futureSet anticone [] = Inr anticone"
| "recAnticone_loop n bd b futureSet anticone (k # ks) =
     (case recAnticone n bd b futureSet anticone k of
        Inl e \<Rightarrow> Inl e
      | Inr anticone1 \<Rightarrow> recAnticone_loop n bd b futureSet anticone1 ks)"

text \<open>
  \<open>GetAnticone\<close>: the loop over the tips calls \<open>recAnticone\<close> on each of them in
  turn, as the loop over the parents inside \<open>recAnticone\<close> does.
\<close>

definition GetAnticone :: "nat \<Rightarrow> 'i BlockDAG \<Rightarrow> Block \<Rightarrow> HashSet option \<Rightarrow> error + HashSet" where
  "GetAnticone n bd b exclude =
     (case GetFutureSet n bd NewHashSet (Some b) of
        Inl e \<Rightarrow> Inl e
      | Inr futureSet \<Rightarrow>
          (case tips bd of
             None \<Rightarrow> Inl NilPointerDereference
           | Some ts \<Rightarrow>
               (case recAnticone_loop n bd b futureSet NewHashSet ts of
                  Inl e \<Rightarrow> Inl e
                | Inr anticone \<Rightarrow>
                    Inr (case exclude of None \<Rightarrow> anticone | Some ex \<Rightarrow> HashSet_Exclude anticone ex))))"

subsection \<open>Graph state and locator\<close>

text \<open>
  Modelled from the spec: \<open>dag.GraphState\<close> of the library qitmeer-lib is not among the
  sources. It carries the tip set, the greatest tip layer, the block count and the
  main-chain height.
\<close>

record GraphState =
  gs_tips :: HashSet
  gs_layer :: uint
  gs_total :: uint
  gs_mainHeight :: uint

definition NewGraphState :: GraphState where
  "NewGraphState = \<lparr>gs_tips = NewHashSet, gs_layer = 0, gs_total = 0, gs_mainHeight = 0\<rparr>"

text \<open>
  Modelled from the spec: \<open>IsExcellent\<close> is true when the holder strictly dominates the
  other state, by lexicographic preference on (mainHeight, total, layer, number of tips);
  equal states do not dominate each other. The functions below take the comparison as a
  parameter, and this definition is what the concrete runs pass.
\<close>

definition IsExcellent :: "GraphState \<Rightarrow> GraphState \<Rightarrow> bool" where
  "IsExcellent gs other =
     (if gs_mainHeight gs = gs_mainHeight other \<and> gs_total gs = gs_total other \<and>
         gs_layer gs = gs_layer other \<and> set (gs_tips gs) = set (gs_tips other) then False
      else if gs_mainHeight gs < gs_mainHeight other then False
      else if gs_mainHeight other < gs_mainHeight gs then True
      else if gs_total gs < gs_total other then False
      else if gs_total other < gs_total gs then True
      else if gs_layer gs < gs_layer other then False
      else if gs_layer other < gs_layer gs then True
      else length (gs_tips other) < length (gs_tips gs))"

fun GetGraphState_layer :: "'i BlockDAG \<Rightarrow> uint \<Rightarrow> hash list \<Rightarrow> error + uint" where
  "GetGraphState_layer bd l [] = Inr l"
| "GetGraphState_layer bd l (k # ks) =
     (case blocks bd k of
        None \<Rightarrow> Inl DanglingReference
      | Some tip \<Rightarrow> GetGraphState_layer bd (if l < b_layer tip then b_layer tip else l) ks)"

definition GetGraphState :: "'i IBlockDAG \<Rightarrow> 'i BlockDAG \<Rightarrow> error + GraphState" where
  "GetGraphState inst bd =
     (case (case tips bd of
              None \<Rightarrow> Inr NewGraphState
            | Some ts \<Rightarrow>
                if HashSet_IsEmpty ts then Inr NewGraphState
                else (case GetGraphState_layer bd 0 ts of
                        Inl e \<Rightarrow> Inl e
                      | Inr l \<Rightarrow> Inr (NewGraphState\<lparr>gs_tips := foldl HashSet_Add NewHashSet ts, gs_layer := l\<rparr>)))
      of
        Inl e \<Rightarrow> Inl e
      | Inr gs \<Rightarrow>
          (case inst_GetMainChainTip inst bd of
             None \<Rightarrow> Inl NilPointerDereference
           | Some mt \<Rightarrow> Inr (gs\<lparr>gs_total := GetBlockTotal bd, gs_mainHeight := b_height mt\<rparr>)))"

text \<open>The first loop of \<open>LocateBlocks\<close>: every tip enters the queue and the set.\<close>

fun LocateBlocks_tips :: "'i BlockDAG \<Rightarrow> hash list \<Rightarrow> HashSet \<Rightarrow> hash list \<Rightarrow> error + (hash list \<times> HashSet)" where
  "LocateBlocks_tips bd queue fs [] = Inr (queue, fs)"
| "LocateBlocks_tips bd queue fs (k # ks) =
     (case blocks bd k of
        None \<Rightarrow> Inl DanglingReference
      | Some ib \<Rightarrow> LocateBlocks_tips bd (queue @ [k]) (HashSet_Add fs (b_hash ib)) ks)"

text \<open>The loop over the children of \<open>cur\<close>: the value of \<open>needRec\<close> after it.\<close>

fun LocateBlocks_children :: "GraphState \<Rightarrow> HashSet \<Rightarrow> hash list \<Rightarrow> bool" where
  "LocateBlocks_children gs fs [] = True"
| "LocateBlocks_children gs fs (c # cs) =
     (if HashSet_Has (gs_tips gs) c \<or> \<not> HashSet_Has fs c then False
      else LocateBlocks_children gs fs cs)"

text \<open>The loop over the parents of \<open>cur\<close>: the queue after it.\<close>

fun LocateBlocks_parents :: "HashSet \<Rightarrow> hash list \<Rightarrow> hash list \<Rightarrow> hash list" where
  "LocateBlocks_parents fs queue [] = queue"
| "LocateBlocks_parents fs queue (p # ps) =
     (if HashSet_Has fs p then LocateBlocks_parents fs queue ps
      else LocateBlocks_parents fs (queue @ [p]) ps)"

text \<open>The queue loop; the first argument bounds the number of its rounds.\<close>

fun LocateBlocks_loop :: "nat \<Rightarrow> 'i BlockDAG \<Rightarrow> GraphState \<Rightarrow> hash list \<Rightarrow> HashSet \<Rightarrow> error + HashSet" where
  "LocateBlocks_loop n bd gs [] fs = Inr fs"
| "LocateBlocks_loop 0 bd gs (cur # queue) fs = Inl OutOfFuel"
| "LocateBlocks_loop (Suc n) bd gs (cur # queue) fs =
     (case blocks bd cur of
        None \<Rightarrow> Inl DanglingReference
      | Some curb \<Rightarrow>
          if HashSet_Has (gs_tips gs) (b_hash curb) then LocateBlocks_loop n bd gs queue fs
          else if (if Block_HasChildren curb
                   then (case b_children curb of
                           None \<Rightarrow> True
                         | Some cs \<Rightarrow> LocateBlocks_children gs fs cs)
                   else True)
          then LocateBlocks_loop n bd gs
                 (if Block_HasParents curb
                  then (case b_parents curb of
                          None \<Rightarrow> queue
                        | Some ps \<Rightarrow> LocateBlocks_parents (HashSet_Add fs (b_hash curb)) queue ps)
                  else queue)
                 (HashSet_Add fs (b_hash curb))
          else LocateBlocks_loop n bd gs queue fs)"

fun LocateBlocks_slice :: "'i BlockDAG \<Rightarrow> hash list \<Rightarrow> error + Block list" where
  "LocateBlocks_slice bd [] = Inr []"
| "LocateBlocks_slice bd (k # ks) =
     (case blocks bd k of
        None \<Rightarrow> Inl DanglingReference
      | Some ib \<Rightarrow>
          (case LocateBlocks_slice bd ks of
             Inl e \<Rightarrow> Inl e
           | Inr bs \<Rightarrow> Inr (ib # bs)))"

text \<open>
  Modelled from the spec: \<open>BlockSlice\<close> and its comparison are in block.go, which is
  not among the sources. The spec orders two blocks by \<open>order\<close> ascending with \<open>id\<close>
  as the tiebreak, and \<open>sort.Sort\<close> arranges the slice in that order.
\<close>

definition BlockSlice_key :: "Block \<Rightarrow> uint \<times> uint" where
  "BlockSlice_key b = (b_order b, b_id b)"

definition BlockSlice_Sort :: "Block list \<Rightarrow> Block list" where
  "BlockSlice_Sort bs = sort_key BlockSlice_key bs"

text \<open>
  \<open>LocateBlocks\<close>: \<open>None\<close> is the nil slice. The last loop stops at index
  \<open>int(maxHashes)\<close>, the signed reading of \<open>maxHashes\<close>.
\<close>

definition LocateBlocks ::
  "(GraphState \<Rightarrow> GraphState \<Rightarrow> bool) \<Rightarrow> 'i IBlockDAG \<Rightarrow> nat \<Rightarrow> 'i BlockDAG \<Rightarrow> GraphState \<Rightarrow> uint
     \<Rightarrow> error + hash list option" where
  "LocateBlocks isExcellent inst n bd gs maxHashes =
     (case GetGraphState inst bd of
        Inl e \<Rightarrow> Inl e
      | Inr own \<Rightarrow>
          if isExcellent gs own then Inr None
          else
            (case tips bd of
               None \<Rightarrow> Inl NilPointerDereference
             | Some ts \<Rightarrow>
                 (case LocateBlocks_tips bd [] NewHashSet ts of
                    Inl e \<Rightarrow> Inl e
                  | Inr (queue, fs0) \<Rightarrow>
                      (case LocateBlocks_loop n bd gs queue fs0 of
                         Inl e \<Rightarrow> Inl e
                       | Inr fs \<Rightarrow>
                           (case LocateBlocks_slice bd fs of
                              Inl e \<Rightarrow> Inl e
                            | Inr fsSlice \<Rightarrow>
                                Inr (Some (map b_hash
                                  (take (nat (sint maxHashes))
                                     (if 2 \<le> length fsSlice then BlockSlice_Sort fsSlice else fsSlice)))))))))"

subsection \<open>Confirmations\<close>

definition IsOnMainChain :: "'i IBlockDAG \<Rightarrow> 'i BlockDAG \<Rightarrow> hash option \<Rightarrow> bool" where
  "IsOnMainChain inst bd h = inst_IsOnMainChain inst bd (GetBlock bd h)"

definition GetMainChainTip :: "'i IBlockDAG \<Rightarrow> 'i BlockDAG \<Rightarrow> Block option" where
  "GetMainChainTip inst bd = inst_GetMainChainTip inst bd"

text \<open>The queue loop of \<open>GetConfirmations\<close>; the first argument bounds its rounds.\<close>

fun GetConfirmations_loop ::
  "nat \<Rightarrow> 'i IBlockDAG \<Rightarrow> 'i BlockDAG \<Rightarrow> Block option \<Rightarrow> hash list \<Rightarrow> error + uint" where
  "GetConfirmations_loop n inst bd mainTip [] = Inr 0"
| "GetConfirmations_loop 0 inst bd mainTip (cur # queue) = Inl OutOfFuel"
| "GetConfirmations_loop (Suc n) inst bd mainTip (cur # queue) =
     (case blocks bd cur of
        None \<Rightarrow> Inl DanglingReference
      | Some curb \<Rightarrow>
          if IsOnMainChain inst bd (Some (b_hash curb)) then
            (case mainTip of
               None \<Rightarrow> Inl NilPointerDereference
             | Some mt \<Rightarrow> Inr (1 + b_height mt - b_height curb))
          else if \<not> Block_HasChildren curb then Inr 0
          else (case b_children curb of
                  None \<Rightarrow> Inl NilPointerDereference
                | Some cs \<Rightarrow> GetConfirmations_loop n inst bd mainTip (queue @ cs)))"

definition GetConfirmations :: "nat \<Rightarrow> 'i IBlockDAG \<Rightarrow> 'i BlockDAG \<Rightarrow> hash option \<Rightarrow> error + uint" where
  "GetConfirmations n inst bd h =
     (case GetBlock bd h of
        None \<Rightarrow> Inr 0
      | Some block \<Rightarrow>
          if IsOnMainChain inst bd h then
            (case GetMainChainTip inst bd of
               None \<Rightarrow> Inl NilPointerDereference
             | Some mt \<Rightarrow> Inr (b_height mt - b_height block))
          else if \<not> Block_HasChildren block then Inr 0
          else GetConfirmations_loop n inst bd (GetMainChainTip inst bd) (case h of None \<Rightarrow> [] | Some k \<Rightarrow> [k]))"

subsection \<open>Runs of the framework\<close>

text \<open>
  The state after \<open>AddBlock\<close>, and after a sequence of calls. A call that is rejected
  leaves the state as it was.
\<close>

definition AddBlock_state :: "'i IBlockDAG \<Rightarrow> 'i BlockDAG \<Rightarrow> IBlockData option \<Rightarrow> 'i BlockDAG" where
  "AddBlock_state inst bd d = (case AddBlock inst bd d of Inl e \<Rightarrow> bd | Inr (r, bd1) \<Rightarrow> bd1)"

fun AddBlocks :: "'i IBlockDAG \<Rightarrow> 'i BlockDAG \<Rightarrow> IBlockData option list \<Rightarrow> 'i BlockDAG" where
  "AddBlocks inst bd [] = bd"
| "AddBlocks inst bd (d # ds) = AddBlocks inst (AddBlock_state inst bd d) ds"

text \<open>
  The framework before its first block, as \<open>Init\<close> leaves it: no block map, no tips,
  a count of zero.
\<close>

definition is_new :: "'i BlockDAG \<Rightarrow> bool" where
  "is_new bd = (blocks bd = Map.empty \<and> blockTotal bd = 0 \<and> tips bd = None)"

text \<open>
  What the framework owns of a block: the strategy sets \<open>order\<close>, \<open>height\<close>,
  \<open>weight\<close> and \<open>mainParent\<close>, and leaves the rest alone.
\<close>

definition skeleton :: "Block \<Rightarrow> uint \<times> hash \<times> HashSet option \<times> HashSet option \<times> uint" where
  "skeleton b = (b_id b, b_hash b, b_parents b, b_children b, b_layer b)"

definition same_skeleton :: "'i BlockDAG \<Rightarrow> 'i BlockDAG \<Rightarrow> bool" where
  "same_skeleton bd bd1 =
     (genesis bd1 = genesis bd \<and> blockTotal bd1 = blockTotal bd \<and> tips bd1 = tips bd \<and>
      (\<forall>k. map_option skeleton (blocks bd1 k) = map_option skeleton (blocks bd k)))"

definition keeps_skeleton :: "'i IBlockDAG \<Rightarrow> bool" where
  "keeps_skeleton inst = (\<forall>bd h. same_skeleton bd (snd (inst_AddBlock inst bd h)))"

subsection \<open>A strategy to run the framework on\<close>

text \<open>
  The repository's variants are not among the sources. The concrete runs below use a
  plain strategy in their place: a block is ordered by its insertion counter, and it
  extends the main chain when its main parent is the tip of the main chain. The state of
  the strategy is the main chain, genesis first.
\<close>

definition chain_AddBlock :: "hash list BlockDAG \<Rightarrow> hash \<Rightarrow> hash list option \<times> hash list BlockDAG" where
  "chain_AddBlock bd h =
     (case blocks bd h of
        None \<Rightarrow> (None, bd)
      | Some b \<Rightarrow>
          if instanceState bd = [] \<or> b_mainParent b = Some (last (instanceState bd)) then
            (Some [h],
             bd\<lparr>blocks := (blocks bd)(h \<mapsto> b\<lparr>b_order := b_id b, b_height := of_nat (length (instanceState bd))\<rparr>),
                order := (order bd)(b_id b \<mapsto> h),
                instanceState := instanceState bd @ [h]\<rparr>)
          else
            (Some [h],
             bd\<lparr>blocks := (blocks bd)(h \<mapsto> b\<lparr>b_order := b_id b\<rparr>),
                order := (order bd)(b_id b \<mapsto> h)\<rparr>))"

definition chain_strategy :: "hash list IBlockDAG" where
  "chain_strategy =
     \<lparr>inst_AddBlock = chain_AddBlock,
      inst_GetBlockByOrder = (\<lambda>bd n. None),
      inst_IsOnMainChain = (\<lambda>bd ib. case ib of None \<Rightarrow> False | Some b \<Rightarrow> b_hash b \<in> set (instanceState bd)),
      inst_GetMainChainTip = (\<lambda>bd. if instanceState bd = [] then None else blocks bd (last (instanceState bd)))\<rparr>"

definition new_dag :: "hash list BlockDAG" where
  "new_dag = \<lparr>genesis = 0, blocks = Map.empty, blockTotal = 0, tips = None, lastTime = 0,
              order = Map.empty, instanceState = []\<rparr>"

definition blockData :: "hash \<Rightarrow> hash list \<Rightarrow> IBlockData option" where
  "blockData h ps = Some \<lparr>d_hash = h, d_parents = map Some ps, d_timestamp = 0\<rparr>"

text \<open>
  The fixtures of the spec, with G, A, B, C as the hashes 1, 2, 3, 4: the linear chain,
  the diamond and the two tips.
\<close>

definition linear_chain :: "hash list BlockDAG" where
  "linear_chain = AddBlocks chain_strategy new_dag [blockData 1 [], blockData 2 [1], blockData 3 [2]]"

definition diamond :: "hash list BlockDAG" where
  "diamond = AddBlocks chain_strategy new_dag
     [blockData 1 [], blockData 2 [1], blockData 3 [1], blockData 4 [2, 3]]"

definition two_tips :: "hash list BlockDAG" where
  "two_tips = AddBlocks chain_strategy new_dag [blockData 1 [], blockData 2 [1], blockData 3 [1]]"

text \<open>
  A DAG with a side branch: 2 and 3 are children of genesis 1, 4 and 5 are children of
  3, and 6 has the parents 2 and 5. The main chain is 1, 2, 6.
\<close>

definition side_branch :: "hash list BlockDAG" where
  "side_branch = AddBlocks chain_strategy new_dag
     [blockData 1 [], blockData 2 [1], blockData 3 [1], blockData 4 [3], blockData 5 [3],
      blockData 6 [2, 5]]"

subsection \<open>The graph and its invariant\<close>

text \<open>
  The children and the parents of a hash as sets, and the layer of a hash as a natural
  number. They are empty, and 0, for a hash that is not present.
\<close>

definition children_of :: "'i BlockDAG \<Rightarrow> hash \<Rightarrow> hash set" where
  "children_of bd h =
     (case blocks bd h of None \<Rightarrow> {} | Some b \<Rightarrow> (case b_children b of None \<Rightarrow> {} | Some cs \<Rightarrow> set cs))"

definition parents_of :: "'i BlockDAG \<Rightarrow> hash \<Rightarrow> hash set" where
  "parents_of bd h =
     (case blocks bd h of None \<Rightarrow> {} | Some b \<Rightarrow> (case b_parents b of None \<Rightarrow> {} | Some ps \<Rightarrow> set ps))"

definition layer_of :: "'i BlockDAG \<Rightarrow> hash \<Rightarrow> nat" where
  "layer_of bd h = (case blocks bd h of None \<Rightarrow> 0 | Some b \<Rightarrow> unat (b_layer b))"

text \<open>
  The invariant of the framework's state: every block is stored under its own hash, its id
  is below the block count and its layer is at most its id; the child and parent links
  mirror each other; genesis alone has no parents and has layer 0, every other block has
  parents and lies one layer above the highest of them; the tips are the blocks without
  children; the block count is the number of blocks.
\<close>

definition dag_inv :: "'i BlockDAG \<Rightarrow> bool" where
  "dag_inv bd =
     (finite (dom (blocks bd)) \<and>
      (\<forall>k b. blocks bd k = Some b \<longrightarrow>
         b_hash b = k \<and> b_id b < blockTotal bd \<and> b_layer b \<le> b_id b \<and>
         (\<forall>cs. b_children b = Some cs \<longrightarrow> distinct cs) \<and>
         (\<forall>ps. b_parents b = Some ps \<longrightarrow> distinct ps) \<and>
         (if k = genesis bd then b_parents b = None \<and> b_layer b = 0
          else (\<exists>ps. b_parents b = Some ps \<and> ps \<noteq> []) \<and>
               unat (b_layer b) = Suc (Max (layer_of bd ` parents_of bd k)))) \<and>
      (\<forall>p c. c \<in> children_of bd p \<longleftrightarrow> p \<in> parents_of bd c) \<and>
      (case tips bd of
         None \<Rightarrow> blocks bd = Map.empty
       | Some ts \<Rightarrow> distinct ts \<and> set ts = {h \<in> dom (blocks bd). children_of bd h = {}}) \<and>
      unat (blockTotal bd) = card (dom (blocks bd)) \<and>
      (blocks bd \<noteq> Map.empty \<longrightarrow> genesis bd \<in> dom (blocks bd)))"

text \<open>
  The sort key of the block stored under a hash, and the measure that bounds the rounds of
  the queue loop of \<open>LocateBlocks\<close>: a block of layer l weighs (n + 1) to the power l,
  where n is the number of blocks, which is more than all its parents weigh together.
\<close>

definition block_key :: "'i BlockDAG \<Rightarrow> hash \<Rightarrow> uint \<times> uint" where
  "block_key bd h = (case blocks bd h of None \<Rightarrow> (0, 0) | Some b \<Rightarrow> BlockSlice_key b)"

definition locate_weight :: "'i BlockDAG \<Rightarrow> hash list \<Rightarrow> nat" where
  "locate_weight bd queue = sum_list (map (\<lambda>x. Suc (card (dom (blocks bd))) ^ layer_of bd x) queue)"

text \<open>
  The edges of the graph. The future set of a hash is what its child edges reach in one
  step or more; the past set, its ancestors, is what its parent edges reach.
\<close>

definition child_edges :: "'i BlockDAG \<Rightarrow> (hash \<times> hash) set" where
  "child_edges bd = {(p, c). c \<in> children_of bd p}"

definition parent_edges :: "'i BlockDAG \<Rightarrow> (hash \<times> hash) set" where
  "parent_edges bd = {(c, p). p \<in> parents_of bd c}"

definition future_set :: "'i BlockDAG \<Rightarrow> hash \<Rightarrow> hash set" where
  "future_set bd h = {x. (h, x) \<in> (child_edges bd)\<^sup>+}"

definition past_set :: "'i BlockDAG \<Rightarrow> hash \<Rightarrow> hash set" where
  "past_set bd h = {x. (h, x) \<in> (parent_edges bd)\<^sup>+}"

text \<open>
  What one call of \<open>GetFutureSet\<close> adds to the set \<open>fs\<close> when it visits the children
  \<open>C\<close>: the result holds \<open>C\<close>, it adds only descendants of \<open>C\<close>, and every hash
  it adds has all its children in the result.
\<close>

definition future_step :: "'i BlockDAG \<Rightarrow> HashSet \<Rightarrow> HashSet \<Rightarrow> hash set \<Rightarrow> bool" where
  "future_step bd fs fs1 C =
     (set fs \<subseteq> set fs1 \<and> set fs1 \<subseteq> set fs \<union> (child_edges bd)\<^sup>* `` C \<and> C \<subseteq> set fs1 \<and>
      (\<forall>x \<in> set fs1 - set fs. children_of bd x \<subseteq> set fs1) \<and> (distinct fs \<longrightarrow> distinct fs1))"

text \<open>
  The state of \<open>recAnticone\<close>. \<open>V\<close> is the set of the hashes that the traversal has
  entered so far (those it found to have all their children in the future set or the
  anticone); the anticone \<open>ac\<close> is the part of \<open>V\<close> outside the future set \<open>F\<close>, and
  \<open>V\<close> holds neither \<open>h\<close> nor an ancestor of \<open>h\<close>. A hash is pending when all its
  children have been entered and it has not: every such hash is in \<open>W\<close>, the hashes the
  traversal has still to call.
\<close>

definition anticone_state :: "'i BlockDAG \<Rightarrow> hash \<Rightarrow> hash set \<Rightarrow> HashSet \<Rightarrow> hash set \<Rightarrow> bool" where
  "anticone_state bd h F ac V =
     (set ac = V - F \<and> distinct ac \<and> V \<subseteq> dom (blocks bd) \<and> h \<notin> V \<and>
      V \<inter> {x. (x, h) \<in> (child_edges bd)\<^sup>+} = {})"

definition anticone_pending :: "'i BlockDAG \<Rightarrow> hash \<Rightarrow> hash set \<Rightarrow> hash set \<Rightarrow> bool" where
  "anticone_pending bd h V W =
     (\<forall>p \<in> dom (blocks bd). p \<noteq> h \<and> p \<notin> V \<and> children_of bd p \<subseteq> V \<longrightarrow> p \<in> W)"

section \<open>Properties\<close>

subsection \<open>Rejections and lookups\<close>

lemma HasBlocks_iff: "HasBlocks bd hs \<longleftrightarrow> (\<forall>h \<in> set hs. HasBlock bd h)"
  by (induction hs) auto

text \<open>
  C1. \<open>AddBlock\<close> is atomic on rejection: when the data is nil, or its hash is already
  present, or the DAG is not empty and the declared parents are empty or name a hash that
  is not present, \<open>AddBlock\<close> returns nil and the whole state (blocks, blockTotal, tips,
  genesis, order, lastTime and the state of the strategy) is the state before the call.
\<close>

theorem AddBlock_rejected_unchanged:
  assumes "bo = None \<or> (\<exists>b. bo = Some b \<and> (HasBlock bd (Some (d_hash b)) \<or>
             (0 < blockTotal bd \<and> (d_parents b = [] \<or> (\<exists>p \<in> set (d_parents b). \<not> HasBlock bd p)))))"
  shows "AddBlock inst bd bo = Inr (None, bd)"
  using assms
  by (auto simp: AddBlock_def AddBlock_frame_def GetBlockTotal_def HasBlocks_iff)

text \<open>The duplicate add of the spec: B is added to the diamond a second time.\<close>

theorem AddBlock_rejected_unchanged_witness:
  "HasBlock diamond (Some 3) \<and> AddBlock chain_strategy diamond (blockData 3 [1]) = Inr (None, diamond)"
proof -
  have h: "HasBlock diamond (Some 3)" by code_simp
  show ?thesis
    using h AddBlock_rejected_unchanged [of "blockData 3 [1]" diamond chain_strategy]
    by (simp add: blockData_def)
qed

text \<open>
  C10. For a hash that is not present in \<open>blocks\<close> (and for the nil pointer),
  \<open>GetConfirmations\<close> returns 0, whatever the bound on the traversal.
\<close>

theorem GetConfirmations_unknown:
  "GetBlock bd h = None \<Longrightarrow> GetConfirmations n inst bd h = Inr 0"
  by (simp add: GetConfirmations_def)

theorem GetConfirmations_unknown_witness:
  "GetBlock two_tips (Some 9) = None \<and> GetConfirmations 5 chain_strategy two_tips (Some 9) = Inr 0"
proof -
  have h: "GetBlock two_tips (Some 9) = None" by code_simp
  show ?thesis using h GetConfirmations_unknown [OF h, of 5 chain_strategy] by simp
qed

text \<open>
  C9. The claim says that \<open>GetLayer\<close> returns without error on a hash that is not
  present. The code calls \<open>GetLayer\<close> on the nil block that \<open>GetBlock\<close> returns: for
  every such hash \<open>GetBlock\<close> is nil and \<open>GetLayer\<close> panics.
\<close>

theorem GetLayer_unknown_panics:
  "GetBlock bd h = None \<Longrightarrow> GetLayer bd h = Inl NilPointerDereference"
  by (simp add: GetLayer_def)

theorem GetLayer_unknown_panics_witness:
  "GetBlock new_dag (Some 1) = None \<and> \<not> HasBlock new_dag (Some 1) \<and>
   GetLayer new_dag (Some 1) = Inl NilPointerDereference"
proof -
  have h: "GetBlock new_dag (Some 1) = None" by code_simp
  show ?thesis using h GetLayer_unknown_panics [OF h] by (simp add: HasBlock_def)
qed

subsection \<open>The first block\<close>

text \<open>
  C8, as the code has it. On a new DAG \<open>AddBlock\<close> accepts every block that is not
  nil, whatever parents it declares: the guard \<open>GetBlockTotal() > 0\<close> skips the checks
  of the parents and leaves the local \<open>parents\<close> nil. The block is stored with id 0,
  without parents and with layer 0, it becomes genesis and the only tip, and this state
  goes to the strategy.
\<close>

theorem AddBlock_new_dag:
  assumes "is_new bd"
  shows "AddBlock inst bd (Some b) =
     Inr (inst_AddBlock inst
       (bd\<lparr>blocks := [d_hash b \<mapsto> \<lparr>b_id = 0, b_hash = d_hash b, b_parents = None, b_children = None,
                    b_mainParent = None, b_weight = 1, b_layer = 0, b_order = 0, b_height = 0\<rparr>],
           genesis := d_hash b, blockTotal := 1, tips := Some [d_hash b],
           lastTime := max (lastTime bd) (d_timestamp b)\<rparr>) (d_hash b))"
proof -
  obtain g bs bt tp lt od st where bd: "bd = \<lparr>genesis = g, blocks = bs, blockTotal = bt, tips = tp,
      lastTime = lt, order = od, instanceState = st\<rparr>"
    by (cases bd) auto
  from assms show ?thesis
    by (simp add: bd is_new_def AddBlock_def AddBlock_frame_def GetBlockTotal_def HasBlock_def GetBlock_def
        IsDAG_def AddBlock_build_def AddBlock_store_def updateTips_def NewHashSet_def HashSet_Add_def
        HashSet_Has_def Let_def max_def)
qed

theorem AddBlock_new_dag_witness:
  "is_new new_dag \<and>
   AddBlock chain_strategy new_dag (Some \<lparr>d_hash = 1, d_parents = [Some 5], d_timestamp = 0\<rparr>) =
     Inr (inst_AddBlock chain_strategy
       (new_dag\<lparr>blocks := [1 \<mapsto> \<lparr>b_id = 0, b_hash = 1, b_parents = None, b_children = None,
                    b_mainParent = None, b_weight = 1, b_layer = 0, b_order = 0, b_height = 0\<rparr>],
           genesis := 1, blockTotal := 1, tips := Some [1],
           lastTime := max (lastTime new_dag) 0\<rparr>) 1)"
proof -
  have h: "is_new new_dag" by (simp add: is_new_def new_dag_def)
  show ?thesis
    using h AddBlock_new_dag [OF h, of chain_strategy "\<lparr>d_hash = 1, d_parents = [Some 5], d_timestamp = 0\<rparr>"]
    by simp
qed

text \<open>
  C8, as the claim has it, fails: a block that declares the parent 5 is added to the new
  DAG, and the call does not leave the DAG empty.
\<close>

theorem AddBlock_parents_on_new_dag_counterexample:
  "AddBlock chain_strategy new_dag (blockData 1 [5]) \<noteq> Inr (None, new_dag) \<and>
   blockTotal (AddBlock_state chain_strategy new_dag (blockData 1 [5])) = 1 \<and>
   genesis (AddBlock_state chain_strategy new_dag (blockData 1 [5])) = 1 \<and>
   HasBlock (AddBlock_state chain_strategy new_dag (blockData 1 [5])) (Some 1)"
proof -
  have a: "blockTotal (AddBlock_state chain_strategy new_dag (blockData 1 [5])) = 1" by code_simp
  have b: "genesis (AddBlock_state chain_strategy new_dag (blockData 1 [5])) = 1" by code_simp
  have c: "HasBlock (AddBlock_state chain_strategy new_dag (blockData 1 [5])) (Some 1)" by code_simp
  have d: "blockTotal new_dag = 0" by code_simp
  have "AddBlock chain_strategy new_dag (blockData 1 [5]) \<noteq> Inr (None, new_dag)"
  proof
    assume "AddBlock chain_strategy new_dag (blockData 1 [5]) = Inr (None, new_dag)"
    then have "AddBlock_state chain_strategy new_dag (blockData 1 [5]) = new_dag"
      by (simp add: AddBlock_state_def)
    with a d show False by simp
  qed
  with a b c show ?thesis by simp
qed

subsection \<open>Confirmations\<close>

text \<open>
  C5. The claim gives a block off the main chain that has a descendant on the main
  chain 1 plus the main height minus the height of that descendant. In the DAG with the
  side branch, block 3 is off the main chain, its children are 4 and 5, and 6, a child
  of 5, is on the main chain at height 2, the height of the main tip: the claim gives 1.
  The queue loop meets 4 first, which has no children and is off the main chain, and
  returns 0 there.
\<close>

theorem GetConfirmations_side_branch:
  "GetConfirmations 10 chain_strategy side_branch (Some 3) = Inr 0 \<and>
   \<not> IsOnMainChain chain_strategy side_branch (Some 3) \<and>
   map_option b_children (GetBlock side_branch (Some 3)) = Some (Some [4, 5]) \<and>
   map_option b_children (GetBlock side_branch (Some 5)) = Some (Some [6]) \<and>
   IsOnMainChain chain_strategy side_branch (Some 6) \<and>
   map_option b_height (GetBlock side_branch (Some 6)) = Some 2 \<and>
   map_option b_height (GetMainChainTip chain_strategy side_branch) = Some 2"
  by code_simp

subsection \<open>The invariant is kept\<close>

lemma HashSet_Add_set [simp]: "set (HashSet_Add s h) = insert h (set s)"
  by (auto simp: HashSet_Add_def HashSet_Has_def)

lemma HashSet_Add_distinct [simp]: "distinct (HashSet_Add s h) = distinct s"
  by (auto simp: HashSet_Add_def HashSet_Has_def)

lemma HashSet_Add_idem [simp]: "HashSet_Add (HashSet_Add s h) h = HashSet_Add s h"
  by (auto simp: HashSet_Add_def HashSet_Has_def)

lemma HashSet_Add_nonempty [simp]: "HashSet_Add s h \<noteq> []"
  by (auto simp: HashSet_Add_def HashSet_Has_def)

lemma Block_AddChild_idem [simp]: "Block_AddChild (Block_AddChild p c) c = Block_AddChild p c"
  by (simp add: Block_AddChild_def)

lemma Block_AddChild_fields [simp]:
  "b_id (Block_AddChild p c) = b_id p"
  "b_hash (Block_AddChild p c) = b_hash p"
  "b_parents (Block_AddChild p c) = b_parents p"
  "b_layer (Block_AddChild p c) = b_layer p"
  "b_mainParent (Block_AddChild p c) = b_mainParent p"
  "b_order (Block_AddChild p c) = b_order p"
  "b_height (Block_AddChild p c) = b_height p"
  "b_weight (Block_AddChild p c) = b_weight p"
  by (simp_all add: Block_AddChild_def)

lemma Block_AddChild_children:
  "\<exists>cs. b_children (Block_AddChild p c) = Some cs \<and>
        set cs = insert c (case b_children p of None \<Rightarrow> {} | Some cs0 \<Rightarrow> set cs0) \<and>
        (distinct cs \<longleftrightarrow> (case b_children p of None \<Rightarrow> True | Some cs0 \<Rightarrow> distinct cs0))"
  by (auto simp: Block_AddChild_def NewHashSet_def split: option.splits)

text \<open>The loop over the parents, in closed form.\<close>

lemma AddBlock_parents_result:
  assumes "\<forall>h \<in> set hs. HasBlock bd h" and "b_parents block = Some ps0"
  shows "\<exists>bs1 block1 ml1 ps1.
     AddBlock_parents bd block ml k hs = Inr (bd\<lparr>blocks := bs1\<rparr>, block1, ml1) \<and>
     (\<forall>x. bs1 x = (if Some x \<in> set hs then map_option (\<lambda>p. Block_AddChild p (b_hash block)) (blocks bd x)
                    else blocks bd x)) \<and>
     b_parents block1 = Some ps1 \<and> set ps1 = set ps0 \<union> {x. Some x \<in> set hs} \<and>
     (distinct ps0 \<longrightarrow> distinct ps1) \<and>
     b_hash block1 = b_hash block \<and> b_id block1 = b_id block \<and> b_children block1 = b_children block \<and>
     b_layer block1 = b_layer block \<and>
     ml \<le> ml1 \<and> (\<forall>x b. Some x \<in> set hs \<longrightarrow> blocks bd x = Some b \<longrightarrow> b_layer b \<le> ml1) \<and>
     (ml1 = ml \<or> (\<exists>x b. Some x \<in> set hs \<and> blocks bd x = Some b \<and> b_layer b = ml1))"
  using assms
proof (induction hs arbitrary: bd block ml k ps0)
  case Nil
  show ?case
    by (rule exI [of _ "blocks bd"]) (simp add: Nil)
next
  case (Cons h hs)
  from Cons.prems obtain hk parent where h: "h = Some hk" and par: "blocks bd hk = Some parent"
    by (auto simp: HasBlock_def GetBlock_def split: option.splits)
  define block2 where "block2 = (if k = 0 then (block\<lparr>b_parents := Some (HashSet_Add ps0 hk)\<rparr>)\<lparr>b_mainParent := Some (b_hash parent)\<rparr>
       else block\<lparr>b_parents := Some (HashSet_Add ps0 hk)\<rparr>)"
  define bd1 where "bd1 = bd\<lparr>blocks := (blocks bd)(hk \<mapsto> Block_AddChild parent (b_hash block))\<rparr>"
  define ml2 where "ml2 = (if ml = 0 \<or> ml < b_layer parent then b_layer parent else ml)"
  have step: "AddBlock_parents bd block ml k (h # hs) = AddBlock_parents bd1 block2 ml2 (Suc k) hs"
    using h par Cons.prems(2) by (simp add: GetBlock_def Let_def block2_def bd1_def ml2_def)
  have p1: "\<forall>h \<in> set hs. HasBlock bd1 h"
    using Cons.prems(1) by (auto simp: HasBlock_def GetBlock_def bd1_def split: option.splits)
  have p2: "b_parents block2 = Some (HashSet_Add ps0 hk)" by (simp add: block2_def)
  from Cons.IH [OF p1 p2, of ml2 "Suc k"] obtain bs1 block1 ml1 ps1 where
    r: "AddBlock_parents bd1 block2 ml2 (Suc k) hs = Inr (bd1\<lparr>blocks := bs1\<rparr>, block1, ml1)"
    and bs: "\<forall>x. bs1 x = (if Some x \<in> set hs then map_option (\<lambda>p. Block_AddChild p (b_hash block2)) (blocks bd1 x)
                    else blocks bd1 x)"
    and ps: "b_parents block1 = Some ps1" "set ps1 = set (HashSet_Add ps0 hk) \<union> {x. Some x \<in> set hs}"
       "distinct (HashSet_Add ps0 hk) \<longrightarrow> distinct ps1"
    and fl: "b_hash block1 = b_hash block2" "b_id block1 = b_id block2" "b_children block1 = b_children block2"
       "b_layer block1 = b_layer block2"
    and m1: "ml2 \<le> ml1" "\<forall>x b. Some x \<in> set hs \<longrightarrow> blocks bd1 x = Some b \<longrightarrow> b_layer b \<le> ml1"
    and m2: "ml1 = ml2 \<or> (\<exists>x b. Some x \<in> set hs \<and> blocks bd1 x = Some b \<and> b_layer b = ml1)"
    by blast
  have hb: "b_hash block2 = b_hash block" "b_id block2 = b_id block" "b_children block2 = b_children block"
      "b_layer block2 = b_layer block"
    by (simp_all add: block2_def)
  have bd1': "bd1\<lparr>blocks := bs1\<rparr> = bd\<lparr>blocks := bs1\<rparr>" by (simp add: bd1_def)
  have ml2a: "ml \<le> ml2" "b_layer parent \<le> ml2" "ml2 = ml \<or> ml2 = b_layer parent"
    by (auto simp: ml2_def)
  have lay1: "\<And>x b. blocks bd1 x = Some b \<Longrightarrow> \<exists>b0. blocks bd x = Some b0 \<and> b_layer b0 = b_layer b"
    using par by (auto simp: bd1_def split: if_splits)
  have lay2: "\<And>x b. blocks bd x = Some b \<Longrightarrow> \<exists>b1. blocks bd1 x = Some b1 \<and> b_layer b1 = b_layer b"
    using par by (auto simp: bd1_def split: if_splits)
  show ?case
  proof (intro exI conjI)
    show "AddBlock_parents bd block ml k (h # hs) = Inr (bd\<lparr>blocks := bs1\<rparr>, block1, ml1)"
      using step r bd1' by simp
    show "\<forall>x. bs1 x = (if Some x \<in> set (h # hs) then map_option (\<lambda>p. Block_AddChild p (b_hash block)) (blocks bd x)
                    else blocks bd x)"
      using bs par by (auto simp: hb h bd1_def)
    show "b_parents block1 = Some ps1" by fact
    show "set ps1 = set ps0 \<union> {x. Some x \<in> set (h # hs)}" using ps(2) h by auto
    show "distinct ps0 \<longrightarrow> distinct ps1" using ps(3) by simp
    show "b_hash block1 = b_hash block" "b_id block1 = b_id block" "b_children block1 = b_children block"
      "b_layer block1 = b_layer block"
      using fl hb by simp_all
    show "ml \<le> ml1" using ml2a(1) m1(1) by simp
    show "\<forall>x b. Some x \<in> set (h # hs) \<longrightarrow> blocks bd x = Some b \<longrightarrow> b_layer b \<le> ml1"
    proof (intro allI impI)
      fix x b assume x: "Some x \<in> set (h # hs)" and b: "blocks bd x = Some b"
      show "b_layer b \<le> ml1"
      proof (cases "x = hk")
        case True
        then have "b = parent" using par b by simp
        then show ?thesis using ml2a(2) m1(1) by simp
      next
        case False
        then have "Some x \<in> set hs" using x h by auto
        moreover from lay2 [OF b] obtain b1 where "blocks bd1 x = Some b1" "b_layer b1 = b_layer b" by blast
        ultimately show ?thesis using m1(2) by metis
      qed
    qed
    show "ml1 = ml \<or> (\<exists>x b. Some x \<in> set (h # hs) \<and> blocks bd x = Some b \<and> b_layer b = ml1)"
    proof -
      from m2 show ?thesis
      proof
        assume "ml1 = ml2"
        with ml2a(3) show ?thesis using par h by auto
      next
        assume "\<exists>x b. Some x \<in> set hs \<and> blocks bd1 x = Some b \<and> b_layer b = ml1"
        then obtain x b where "Some x \<in> set hs" "blocks bd1 x = Some b" "b_layer b = ml1" by blast
        with lay1 [of x b] show ?thesis by auto
      qed
    qed
  qed
qed

lemma updateTips_loop_result:
  assumes "set ks \<subseteq> dom (blocks bd)"
  shows "updateTips_loop bd ts ks = Inr (filter (\<lambda>t. \<not> (t \<in> set ks \<and> children_of bd t \<noteq> {})) ts)"
  using assms
proof (induction ks arbitrary: ts)
  case Nil
  then show ?case by simp
next
  case (Cons k ks)
  then obtain b where b: "blocks bd k = Some b" by auto
  have hc: "Block_HasChildren b \<longleftrightarrow> children_of bd k \<noteq> {}"
    using b by (auto simp: Block_HasChildren_def children_of_def split: option.splits)
  have ks: "set ks \<subseteq> dom (blocks bd)" using Cons.prems by auto
  show ?case
    using b hc Cons.IH [OF ks]
    by (auto simp: GetBlock_def HashSet_Remove_def removeAll_filter_not_eq intro!: filter_cong)
qed

lemma dag_inv_new: "is_new bd \<Longrightarrow> dag_inv bd"
  by (simp add: is_new_def dag_inv_def children_of_def parents_of_def)

lemma children_of_skeleton:
  "map_option skeleton (blocks bd1 k) = map_option skeleton (blocks bd k) \<Longrightarrow> children_of bd1 k = children_of bd k"
  by (auto simp: children_of_def skeleton_def split: option.splits)

lemma parents_of_skeleton:
  "map_option skeleton (blocks bd1 k) = map_option skeleton (blocks bd k) \<Longrightarrow> parents_of bd1 k = parents_of bd k"
  by (auto simp: parents_of_def skeleton_def split: option.splits)

lemma layer_of_skeleton:
  "map_option skeleton (blocks bd1 k) = map_option skeleton (blocks bd k) \<Longrightarrow> layer_of bd1 k = layer_of bd k"
  by (auto simp: layer_of_def skeleton_def split: option.splits)

lemma same_skeleton_block:
  assumes "same_skeleton bd bd1" and "blocks bd1 k = Some b1"
  shows "\<exists>b. blocks bd k = Some b \<and> skeleton b = skeleton b1"
proof -
  from assms(1) have "map_option skeleton (blocks bd1 k) = map_option skeleton (blocks bd k)"
    by (simp add: same_skeleton_def)
  with assms(2) show ?thesis by (cases "blocks bd k") auto
qed

lemma same_skeleton_dom: "same_skeleton bd bd1 \<Longrightarrow> dom (blocks bd1) = dom (blocks bd)"
proof -
  assume a: "same_skeleton bd bd1"
  have "\<And>k. (blocks bd1 k = None) = (blocks bd k = None)"
  proof -
    fix k
    from a have "map_option skeleton (blocks bd1 k) = map_option skeleton (blocks bd k)"
      by (simp add: same_skeleton_def)
    then show "(blocks bd1 k = None) = (blocks bd k = None)"
      by (cases "blocks bd k"; cases "blocks bd1 k") auto
  qed
  then show ?thesis by (auto simp: dom_def)
qed

lemma dag_inv_same_skeleton:
  assumes inv: "dag_inv bd" and ss: "same_skeleton bd bd1"
  shows "dag_inv bd1"
proof -
  have sk: "\<And>k. map_option skeleton (blocks bd1 k) = map_option skeleton (blocks bd k)"
    using ss by (simp add: same_skeleton_def)
  have ch: "children_of bd1 = children_of bd" using children_of_skeleton [OF sk] by auto
  have pa: "parents_of bd1 = parents_of bd" using parents_of_skeleton [OF sk] by auto
  have la: "layer_of bd1 = layer_of bd" using layer_of_skeleton [OF sk] by auto
  have dm: "dom (blocks bd1) = dom (blocks bd)" by (rule same_skeleton_dom [OF ss])
  have em: "(blocks bd1 = Map.empty) = (blocks bd = Map.empty)"
    using dm by (metis dom_eq_empty_conv)
  have g: "genesis bd1 = genesis bd" "blockTotal bd1 = blockTotal bd" "tips bd1 = tips bd"
    using ss by (simp_all add: same_skeleton_def)
  have blk: "\<forall>k b. blocks bd1 k = Some b \<longrightarrow>
         b_hash b = k \<and> b_id b < blockTotal bd1 \<and> b_layer b \<le> b_id b \<and>
         (\<forall>cs. b_children b = Some cs \<longrightarrow> distinct cs) \<and>
         (\<forall>ps. b_parents b = Some ps \<longrightarrow> distinct ps) \<and>
         (if k = genesis bd1 then b_parents b = None \<and> b_layer b = 0
          else (\<exists>ps. b_parents b = Some ps \<and> ps \<noteq> []) \<and>
               unat (b_layer b) = Suc (Max (layer_of bd1 ` parents_of bd1 k)))"
  proof (intro allI impI)
    fix k b1 assume b1: "blocks bd1 k = Some b1"
    from same_skeleton_block [OF ss b1] obtain b where b: "blocks bd k = Some b" "skeleton b = skeleton b1"
      by blast
    from b(2) have eq: "b_id b1 = b_id b" "b_hash b1 = b_hash b" "b_parents b1 = b_parents b"
        "b_children b1 = b_children b" "b_layer b1 = b_layer b"
      by (simp_all add: skeleton_def)
    from inv b(1) have "b_hash b = k \<and> b_id b < blockTotal bd \<and> b_layer b \<le> b_id b \<and>
         (\<forall>cs. b_children b = Some cs \<longrightarrow> distinct cs) \<and>
         (\<forall>ps. b_parents b = Some ps \<longrightarrow> distinct ps) \<and>
         (if k = genesis bd then b_parents b = None \<and> b_layer b = 0
          else (\<exists>ps. b_parents b = Some ps \<and> ps \<noteq> []) \<and>
               unat (b_layer b) = Suc (Max (layer_of bd ` parents_of bd k)))"
      unfolding dag_inv_def by blast
    then show "b_hash b1 = k \<and> b_id b1 < blockTotal bd1 \<and> b_layer b1 \<le> b_id b1 \<and>
         (\<forall>cs. b_children b1 = Some cs \<longrightarrow> distinct cs) \<and>
         (\<forall>ps. b_parents b1 = Some ps \<longrightarrow> distinct ps) \<and>
         (if k = genesis bd1 then b_parents b1 = None \<and> b_layer b1 = 0
          else (\<exists>ps. b_parents b1 = Some ps \<and> ps \<noteq> []) \<and>
               unat (b_layer b1) = Suc (Max (layer_of bd1 ` parents_of bd1 k)))"
      by (simp add: eq g ch pa la cong: if_cong)
  qed
  from inv have rest: "finite (dom (blocks bd))" "\<forall>p c. c \<in> children_of bd p \<longleftrightarrow> p \<in> parents_of bd c"
    "case tips bd of None \<Rightarrow> blocks bd = Map.empty
       | Some ts \<Rightarrow> distinct ts \<and> set ts = {h \<in> dom (blocks bd). children_of bd h = {}}"
    "unat (blockTotal bd) = card (dom (blocks bd))"
    "blocks bd \<noteq> Map.empty \<longrightarrow> genesis bd \<in> dom (blocks bd)"
    unfolding dag_inv_def by blast+
  show ?thesis
    unfolding dag_inv_def
    using blk rest by (simp add: g ch pa la dm em cong: if_cong option.case_cong)
qed

lemma dag_inv_tips_dom:
  assumes "dag_inv bd" and "tips bd = Some ts"
  shows "set ts \<subseteq> dom (blocks bd)" and "\<forall>t \<in> set ts. children_of bd t = {}" and "distinct ts"
  using assms unfolding dag_inv_def by auto

lemma dag_inv_empty:
  assumes "dag_inv bd" and "blockTotal bd = 0"
  shows "blocks bd = Map.empty" and "tips bd = None \<or> tips bd = Some []"
proof -
  from assms have "finite (dom (blocks bd))" "card (dom (blocks bd)) = 0"
    unfolding dag_inv_def by auto
  then have "dom (blocks bd) = {}" by simp
  then show e: "blocks bd = Map.empty" by simp
  from assms(1) e show "tips bd = None \<or> tips bd = Some []"
    unfolding dag_inv_def by (cases "tips bd") auto
qed

text \<open>The state that the framework hands to the strategy when it accepts a block.\<close>

lemma AddBlock_frame_accept:
  assumes inv: "dag_inv bd"
    and nh: "\<not> HasBlock bd (Some (d_hash b))"
    and par: "0 < blockTotal bd \<longrightarrow> d_parents b \<noteq> [] \<and> HasBlocks bd (d_parents b)"
  shows "\<exists>bd2 nb.
     AddBlock_frame bd (Some b) = Inr (Some (bd2, d_hash b)) \<and>
     blocks bd2 = (\<lambda>x. if x = d_hash b then Some nb
                        else if 0 < blockTotal bd \<and> Some x \<in> set (d_parents b)
                             then map_option (\<lambda>p. Block_AddChild p (d_hash b)) (blocks bd x)
                             else blocks bd x) \<and>
     b_hash nb = d_hash b \<and> b_id nb = blockTotal bd \<and> b_children nb = None \<and>
     (if 0 < blockTotal bd
      then (\<exists>ps. b_parents nb = Some ps \<and> set ps = {x. Some x \<in> set (d_parents b)} \<and> distinct ps \<and> ps \<noteq> []) \<and>
           (\<exists>ml. b_layer nb = ml + 1 \<and>
                 (\<exists>x pb. Some x \<in> set (d_parents b) \<and> blocks bd x = Some pb \<and> b_layer pb = ml) \<and>
                 (\<forall>x pb. Some x \<in> set (d_parents b) \<longrightarrow> blocks bd x = Some pb \<longrightarrow> b_layer pb \<le> ml))
      else b_parents nb = None \<and> b_layer nb = 0) \<and>
     genesis bd2 = (if blockTotal bd = 0 then d_hash b else genesis bd) \<and>
     blockTotal bd2 = blockTotal bd + 1 \<and>
     tips bd2 = Some (HashSet_Add
        (filter (\<lambda>t. \<not> (0 < blockTotal bd \<and> Some t \<in> set (d_parents b)))
           (case tips bd of None \<Rightarrow> [] | Some ts \<Rightarrow> ts)) (d_hash b))"
proof (cases "0 < blockTotal bd")
  case False
  then have bt: "blockTotal bd = 0" by (simp add: word_gt_0)
  note e = dag_inv_empty [OF inv bt]
  define nb where "nb = \<lparr>b_id = blockTotal bd, b_hash = d_hash b, b_parents = None, b_children = None,
                    b_mainParent = None, b_weight = 1, b_layer = 0, b_order = 0, b_height = 0\<rparr>"
  have build: "AddBlock_build bd b = Inr (bd, nb)"
    using bt by (simp add: AddBlock_build_def GetBlockTotal_def nb_def)
  define bd3 where "bd3 = bd\<lparr>blocks := (blocks bd)(d_hash b \<mapsto> nb), genesis := d_hash b, blockTotal := 1\<rparr>"
  have ut: "updateTips bd3 nb = Inr (bd3\<lparr>tips := Some [d_hash b]\<rparr>)"
    using e(2) by (auto simp: updateTips_def bd3_def NewHashSet_def HashSet_Add_def HashSet_Has_def nb_def)
  define bd2 where "bd2 = (if lastTime bd < d_timestamp b then bd3\<lparr>tips := Some [d_hash b], lastTime := d_timestamp b\<rparr>
      else bd3\<lparr>tips := Some [d_hash b]\<rparr>)"
  have store: "AddBlock_store bd nb (d_timestamp b) = Inr bd2"
    using ut bt by (simp add: AddBlock_store_def GetBlockTotal_def Let_def bd3_def bd2_def nb_def)
  have fr: "AddBlock_frame bd (Some b) = Inr (Some (bd2, d_hash b))"
    using nh bt build store by (simp add: AddBlock_frame_def GetBlockTotal_def IsDAG_def nb_def)
  have tp: "(case tips bd of None \<Rightarrow> [] | Some ts \<Rightarrow> ts) = []" using e(2) by auto
  show ?thesis
    apply (rule exI [of _ bd2], rule exI [of _ nb])
    using fr bt tp
    by (auto simp: bd2_def bd3_def nb_def HashSet_Add_def HashSet_Has_def)
next
  case True
  with par have ne: "d_parents b \<noteq> []" and hb: "\<forall>h \<in> set (d_parents b). HasBlock bd h"
    by (simp_all add: HasBlocks_iff)
  define blk0 where "blk0 = \<lparr>b_id = blockTotal bd, b_hash = d_hash b, b_parents = Some NewHashSet, b_children = None,
                    b_mainParent = None, b_weight = 1, b_layer = 0, b_order = 0, b_height = 0\<rparr>"
  have p0: "b_parents blk0 = Some []" by (simp add: blk0_def NewHashSet_def)
  from AddBlock_parents_result [OF hb p0, of 0 0] obtain bs1 block1 ml1 ps1 where
    r: "AddBlock_parents bd blk0 0 0 (d_parents b) = Inr (bd\<lparr>blocks := bs1\<rparr>, block1, ml1)"
    and bs: "\<forall>x. bs1 x = (if Some x \<in> set (d_parents b) then map_option (\<lambda>p. Block_AddChild p (b_hash blk0)) (blocks bd x)
                    else blocks bd x)"
    and ps: "b_parents block1 = Some ps1" "set ps1 = set [] \<union> {x. Some x \<in> set (d_parents b)}"
       "distinct ([] :: hash list) \<longrightarrow> distinct ps1"
    and fl: "b_hash block1 = b_hash blk0" "b_id block1 = b_id blk0" "b_children block1 = b_children blk0"
       "b_layer block1 = b_layer blk0"
    and m1: "\<forall>x b'. Some x \<in> set (d_parents b) \<longrightarrow> blocks bd x = Some b' \<longrightarrow> b_layer b' \<le> ml1"
    and m2: "ml1 = 0 \<or> (\<exists>x b'. Some x \<in> set (d_parents b) \<and> blocks bd x = Some b' \<and> b_layer b' = ml1)"
    by blast
  define nb where "nb = block1\<lparr>b_layer := ml1 + 1\<rparr>"
  have build: "AddBlock_build bd b = Inr (bd\<lparr>blocks := bs1\<rparr>, nb)"
    using True r by (simp add: AddBlock_build_def GetBlockTotal_def blk0_def nb_def)
  have nbf: "b_hash nb = d_hash b" "b_id nb = blockTotal bd" "b_children nb = None" "b_parents nb = Some ps1"
      "b_layer nb = ml1 + 1"
    using fl ps(1) by (simp_all add: nb_def blk0_def)
  from ne obtain h0 where h0: "h0 \<in> set (d_parents b)" by (cases "d_parents b") auto
  with hb obtain x0 pb0 where x0: "h0 = Some x0" "blocks bd x0 = Some pb0"
    by (auto simp: HasBlock_def GetBlock_def split: option.splits)
  have psne: "ps1 \<noteq> []" using ps(2) h0 x0 by auto
  have mx: "\<exists>x pb. Some x \<in> set (d_parents b) \<and> blocks bd x = Some pb \<and> b_layer pb = ml1"
  proof -
    from m2 show ?thesis
    proof
      assume z: "ml1 = 0"
      from m1 h0 x0 have "b_layer pb0 \<le> ml1" by blast
      with z have "b_layer pb0 = ml1" by simp
      with h0 x0 show ?thesis by blast
    qed
  qed
  have hnew: "blocks bd (d_hash b) = None" using nh by (simp add: HasBlock_def GetBlock_def)
  define bsn where "bsn = bs1(d_hash b \<mapsto> nb)"
  define bd3 where "bd3 = bd\<lparr>blocks := bsn, blockTotal := blockTotal bd + 1\<rparr>"
  have bsn: "bsn = (\<lambda>x. if x = d_hash b then Some nb
                        else if Some x \<in> set (d_parents b)
                             then map_option (\<lambda>p. Block_AddChild p (d_hash b)) (blocks bd x)
                             else blocks bd x)"
    using bs by (auto simp: bsn_def blk0_def fun_eq_iff)
  define ts0 where "ts0 = (case tips bd of None \<Rightarrow> [] | Some ts \<Rightarrow> ts)"
  have ut: "updateTips bd3 nb = Inr (bd3\<lparr>tips := Some (HashSet_Add (filter (\<lambda>t. Some t \<notin> set (d_parents b)) ts0) (d_hash b))\<rparr>)"
  proof (cases "tips bd")
    case None
    then show ?thesis by (simp add: updateTips_def bd3_def ts0_def nbf NewHashSet_def)
  next
    case (Some ts)
    note td = dag_inv_tips_dom [OF inv Some]
    have sub: "set ts \<subseteq> dom (blocks bd3)"
      using td(1) by (auto simp: bd3_def bsn split: if_splits)
    have fe: "filter (\<lambda>t. \<not> (t \<in> set ts \<and> children_of bd3 t \<noteq> {})) ts = filter (\<lambda>t. Some t \<notin> set (d_parents b)) ts"
    proof (rule filter_cong [OF refl])
      fix t assume t: "t \<in> set ts"
      then obtain tb where tb: "blocks bd t = Some tb" using td(1) by auto
      have tn: "t \<noteq> d_hash b" using tb hnew by auto
      have c0: "b_children tb = None \<or> b_children tb = Some []"
      proof (cases "b_children tb")
        case None
        then show ?thesis by simp
      next
        case (Some cs)
        with td(2) t tb have "set cs = {}" by (auto simp: children_of_def)
        with Some show ?thesis by simp
      qed
      show "(\<not> (t \<in> set ts \<and> children_of bd3 t \<noteq> {})) = (Some t \<notin> set (d_parents b))"
        using t tn tb c0
        by (auto simp: children_of_def bd3_def bsn Block_AddChild_def NewHashSet_def split: option.splits)
    qed
    show ?thesis
      using Some updateTips_loop_result [OF sub, of ts] fe
      by (simp add: updateTips_def bd3_def ts0_def nbf)
  qed
  define ts2 where "ts2 = HashSet_Add (filter (\<lambda>t. Some t \<notin> set (d_parents b)) ts0) (d_hash b)"
  define bd2 where "bd2 = (if lastTime bd < d_timestamp b then bd3\<lparr>tips := Some ts2, lastTime := d_timestamp b\<rparr>
      else bd3\<lparr>tips := Some ts2\<rparr>)"
  have bt0: "blockTotal bd \<noteq> 0" using True by (simp add: word_gt_0)
  have store: "AddBlock_store (bd\<lparr>blocks := bs1\<rparr>) nb (d_timestamp b) = Inr bd2"
    using ut bt0 unfolding ts2_def [symmetric]
    by (simp add: AddBlock_store_def GetBlockTotal_def Let_def bd3_def bd2_def bsn_def nbf)
  have fr: "AddBlock_frame bd (Some b) = Inr (Some (bd2, d_hash b))"
    using nh True ne par build store by (simp add: AddBlock_frame_def GetBlockTotal_def IsDAG_def nbf)
  show ?thesis
    apply (rule exI [of _ bd2], rule exI [of _ nb])
    using fr True bt0 nbf psne ps mx m1
    by (auto simp: bd2_def bd3_def bsn ts2_def ts0_def)
qed

lemma unat_word_succ: "(w :: uint) \<noteq> - 1 \<Longrightarrow> unat (w + 1) = Suc (unat w)"
proof -
  assume "w \<noteq> - 1"
  then have "1 + w \<noteq> 0" by (simp add: add_eq_0_iff)
  then show ?thesis using unatSuc [of w] by (simp add: add.commute)
qed

lemma word_lt_succ: "(w :: uint) \<noteq> - 1 \<Longrightarrow> w < w + 1"
  by (simp add: unat_word_succ word_less_nat_alt)

lemma word_lt_not_max: "(v :: uint) < w \<Longrightarrow> v \<noteq> - 1"
  by (metis word_order.extremum_strict) 

text \<open>The invariant after the framework has accepted a block.\<close>

lemma dag_inv_insert:
  fixes bd bd2 :: "'i BlockDAG"
  assumes inv: "dag_inv bd" and nowrap: "blockTotal bd \<noteq> - 1"
    and hnew: "blocks bd h = None"
    and Pdom: "P \<subseteq> dom (blocks bd)"
    and P0: "blockTotal bd = 0 \<longrightarrow> P = {}"
    and bl: "blocks bd2 = (\<lambda>x. if x = h then Some nb
                        else if x \<in> P then map_option (\<lambda>p. Block_AddChild p h) (blocks bd x)
                             else blocks bd x)"
    and nb: "b_hash nb = h" "b_id nb = blockTotal bd" "b_children nb = None"
    and nbp: "if 0 < blockTotal bd
      then (\<exists>ps. b_parents nb = Some ps \<and> set ps = P \<and> distinct ps \<and> ps \<noteq> []) \<and>
           (\<exists>ml. b_layer nb = ml + 1 \<and>
                 (\<exists>x pb. x \<in> P \<and> blocks bd x = Some pb \<and> b_layer pb = ml) \<and>
                 (\<forall>x pb. x \<in> P \<longrightarrow> blocks bd x = Some pb \<longrightarrow> b_layer pb \<le> ml))
      else b_parents nb = None \<and> b_layer nb = 0"
    and gen: "genesis bd2 = (if blockTotal bd = 0 then h else genesis bd)"
    and tot: "blockTotal bd2 = blockTotal bd + 1"
    and tip: "tips bd2 = Some (HashSet_Add (filter (\<lambda>t. t \<notin> P) (case tips bd of None \<Rightarrow> [] | Some ts \<Rightarrow> ts)) h)"
  shows "dag_inv bd2"
proof -
  from inv have fin: "finite (dom (blocks bd))"
    and links: "\<And>p c. c \<in> children_of bd p \<longleftrightarrow> p \<in> parents_of bd c"
    and cnt: "unat (blockTotal bd) = card (dom (blocks bd))"
    and gdom: "blocks bd \<noteq> Map.empty \<longrightarrow> genesis bd \<in> dom (blocks bd)"
    and tps: "case tips bd of None \<Rightarrow> blocks bd = Map.empty
       | Some ts \<Rightarrow> distinct ts \<and> set ts = {h \<in> dom (blocks bd). children_of bd h = {}}"
    unfolding dag_inv_def by blast+
  from inv have old: "\<And>k b. blocks bd k = Some b \<Longrightarrow>
         b_hash b = k \<and> b_id b < blockTotal bd \<and> b_layer b \<le> b_id b \<and>
         (\<forall>cs. b_children b = Some cs \<longrightarrow> distinct cs) \<and>
         (\<forall>ps. b_parents b = Some ps \<longrightarrow> distinct ps) \<and>
         (if k = genesis bd then b_parents b = None \<and> b_layer b = 0
          else (\<exists>ps. b_parents b = Some ps \<and> ps \<noteq> []) \<and>
               unat (b_layer b) = Suc (Max (layer_of bd ` parents_of bd k)))"
    unfolding dag_inv_def by blast
  have hP: "h \<notin> P" using Pdom hnew by auto
  have ch_h: "children_of bd h = {}" "parents_of bd h = {}"
    using hnew by (simp_all add: children_of_def parents_of_def)
  have nch: "\<And>p. h \<notin> children_of bd p" using links ch_h by blast
  have npa: "\<And>c. h \<notin> parents_of bd c" using links ch_h by blast
  have dm: "dom (blocks bd2) = insert h (dom (blocks bd))"
    using Pdom by (auto simp: bl split: if_splits)
  have nonempty: "blockTotal bd \<noteq> 0 \<longleftrightarrow> blocks bd \<noteq> Map.empty"
  proof -
    have "blockTotal bd = 0 \<longleftrightarrow> card (dom (blocks bd)) = 0" using cnt by (metis unat_eq_0)
    also have "\<dots> \<longleftrightarrow> dom (blocks bd) = {}" using fin by simp
    finally show ?thesis by simp
  qed
  have F3: "\<And>x. children_of bd2 x = (if x = h then {} else if x \<in> P then insert h (children_of bd x) else children_of bd x)"
  proof -
    fix x
    show "children_of bd2 x = (if x = h then {} else if x \<in> P then insert h (children_of bd x) else children_of bd x)"
    proof (cases "x \<in> P \<and> x \<noteq> h")
      case True
      then obtain pb where pb: "blocks bd x = Some pb" using Pdom by auto
      from Block_AddChild_children [of pb h] obtain cs where
        "b_children (Block_AddChild pb h) = Some cs"
        "set cs = insert h (case b_children pb of None \<Rightarrow> {} | Some cs0 \<Rightarrow> set cs0)" by blast
      then show ?thesis using True pb by (simp add: children_of_def bl)
    next
      case False
      then show ?thesis using nb(3) by (auto simp: children_of_def bl)
    qed
  qed
  have pnb: "(case b_parents nb of None \<Rightarrow> {} | Some ps \<Rightarrow> set ps) = P"
  proof (cases "0 < blockTotal bd")
    case True
    with nbp show ?thesis by auto
  next
    case False
    then have "blockTotal bd = 0" by (simp add: word_gt_0)
    with False nbp P0 show ?thesis by auto
  qed
  have F4: "\<And>x. parents_of bd2 x = (if x = h then P else parents_of bd x)"
    using pnb by (auto simp: parents_of_def bl split: option.splits)
  have F5: "\<And>x. x \<noteq> h \<Longrightarrow> layer_of bd2 x = layer_of bd x"
    by (auto simp: layer_of_def bl split: option.splits)
  have fin2: "finite (dom (blocks bd2))" using fin dm by simp
  have cnt2: "unat (blockTotal bd2) = card (dom (blocks bd2))"
    using cnt fin hnew nowrap by (simp add: tot dm unat_word_succ domIff)
  have links2: "\<forall>p c. c \<in> children_of bd2 p \<longleftrightarrow> p \<in> parents_of bd2 c"
    using links hP nch npa by (auto simp: F3 F4)
  have gdom2: "blocks bd2 \<noteq> Map.empty \<longrightarrow> genesis bd2 \<in> dom (blocks bd2)"
    using gdom nonempty by (auto simp: gen dm)
  have tips2: "case tips bd2 of None \<Rightarrow> blocks bd2 = Map.empty
       | Some ts \<Rightarrow> distinct ts \<and> set ts = {h \<in> dom (blocks bd2). children_of bd2 h = {}}"
  proof (cases "tips bd")
    case None
    with tps have "blocks bd = Map.empty" by simp
    then have "dom (blocks bd) = {}" by simp
    then show ?thesis using None by (auto simp: tip dm F3)
  next
    case (Some ts)
    with tps have d: "distinct ts" and s: "set ts = {h \<in> dom (blocks bd). children_of bd h = {}}" by auto
    show ?thesis
      using d s hnew by (auto simp: tip Some dm F3)
  qed
  have blk2: "\<forall>k b. blocks bd2 k = Some b \<longrightarrow>
         b_hash b = k \<and> b_id b < blockTotal bd2 \<and> b_layer b \<le> b_id b \<and>
         (\<forall>cs. b_children b = Some cs \<longrightarrow> distinct cs) \<and>
         (\<forall>ps. b_parents b = Some ps \<longrightarrow> distinct ps) \<and>
         (if k = genesis bd2 then b_parents b = None \<and> b_layer b = 0
          else (\<exists>ps. b_parents b = Some ps \<and> ps \<noteq> []) \<and>
               unat (b_layer b) = Suc (Max (layer_of bd2 ` parents_of bd2 k)))"
  proof (intro allI impI)
    fix k b' assume b': "blocks bd2 k = Some b'"
    show "b_hash b' = k \<and> b_id b' < blockTotal bd2 \<and> b_layer b' \<le> b_id b' \<and>
         (\<forall>cs. b_children b' = Some cs \<longrightarrow> distinct cs) \<and>
         (\<forall>ps. b_parents b' = Some ps \<longrightarrow> distinct ps) \<and>
         (if k = genesis bd2 then b_parents b' = None \<and> b_layer b' = 0
          else (\<exists>ps. b_parents b' = Some ps \<and> ps \<noteq> []) \<and>
               unat (b_layer b') = Suc (Max (layer_of bd2 ` parents_of bd2 k)))"
    proof (cases "k = h")
      case True
      then have eq: "b' = nb" using b' by (simp add: bl)
      show ?thesis
      proof (cases "0 < blockTotal bd")
        case False
        then have z: "blockTotal bd = 0" by (simp add: word_gt_0)
        with nbp have "b_parents nb = None" "b_layer nb = 0" by auto
        then show ?thesis using True eq nb z by (simp add: tot gen)
      next
        case pos: True
        with nbp obtain ps ml x pb where
          ps: "b_parents nb = Some ps" "set ps = P" "distinct ps" "ps \<noteq> []"
          and ml: "b_layer nb = ml + 1" "x \<in> P" "blocks bd x = Some pb" "b_layer pb = ml"
          and mx: "\<forall>x pb. x \<in> P \<longrightarrow> blocks bd x = Some pb \<longrightarrow> b_layer pb \<le> ml"
          by auto
        from old [OF ml(3)] have pbo: "b_id pb < blockTotal bd" "b_layer pb \<le> b_id pb" by auto
        then have mlt: "ml < blockTotal bd" using ml(4) by simp
        then have mln: "ml \<noteq> - 1" by (rule word_lt_not_max)
        have l1: "b_layer nb \<le> b_id nb" using mlt by (simp add: ml(1) nb(2) inc_le)
        have l2: "b_id nb < blockTotal bd2" using nowrap by (simp add: nb(2) tot word_lt_succ)
        have bt0: "blockTotal bd \<noteq> 0" using pos by (simp add: word_gt_0)
        then have "genesis bd \<in> dom (blocks bd)" using gdom nonempty by simp
        then have gh: "genesis bd2 \<noteq> h" using hnew bt0 by (auto simp: gen)
        have finP: "finite P" using ps(2) by (metis List.finite_set)
        have "Max (layer_of bd ` P) = unat ml"
        proof (rule Max_eqI)
          show "finite (layer_of bd ` P)" using finP by simp
          show "unat ml \<in> layer_of bd ` P"
            using ml(2,3,4) by (force simp: layer_of_def)
          fix y assume "y \<in> layer_of bd ` P"
          then obtain p where p: "p \<in> P" "y = layer_of bd p" by auto
          then obtain pb' where pb': "blocks bd p = Some pb'" using Pdom by auto
          with mx p(1) have "b_layer pb' \<le> ml" by blast
          then show "y \<le> unat ml" using p(2) pb' by (simp add: layer_of_def word_le_nat_alt)
        qed
        moreover have "layer_of bd2 ` P = layer_of bd ` P"
        proof (rule image_cong [OF refl])
          fix x assume "x \<in> P"
          with hP have "x \<noteq> h" by auto
          then show "layer_of bd2 x = layer_of bd x" by (rule F5)
        qed
        ultimately have l3: "unat (b_layer nb) = Suc (Max (layer_of bd2 ` parents_of bd2 h))"
          using mln by (simp add: ml(1) unat_word_succ F4)
        show ?thesis
          using True eq nb ps l1 l2 l3 gh by simp
      qed
    next
      case False
      with b' obtain b0 where b0: "blocks bd k = Some b0" and
        same: "b_id b' = b_id b0" "b_hash b' = b_hash b0" "b_parents b' = b_parents b0" "b_layer b' = b_layer b0"
        and kids: "b' = b0 \<or> b' = Block_AddChild b0 h"
        by (auto simp: bl split: if_splits)
      from old [OF b0] have o: "b_hash b0 = k" "b_id b0 < blockTotal bd" "b_layer b0 \<le> b_id b0"
        "\<forall>cs. b_children b0 = Some cs \<longrightarrow> distinct cs" "\<forall>ps. b_parents b0 = Some ps \<longrightarrow> distinct ps"
        "if k = genesis bd then b_parents b0 = None \<and> b_layer b0 = 0
          else (\<exists>ps. b_parents b0 = Some ps \<and> ps \<noteq> []) \<and>
               unat (b_layer b0) = Suc (Max (layer_of bd ` parents_of bd k))"
        by auto
      have bt0: "blockTotal bd \<noteq> 0" using nonempty b0 by auto
      have g: "genesis bd2 = genesis bd" using bt0 by (simp add: gen)
      have lt: "b_id b' < blockTotal bd2"
        using o(2) nowrap word_lt_succ [of "blockTotal bd"] by (simp add: same tot)
      have dc: "\<forall>cs. b_children b' = Some cs \<longrightarrow> distinct cs"
        using kids o(4) Block_AddChild_children [of b0 h] by (auto split: option.splits)
      have "layer_of bd2 ` parents_of bd k = layer_of bd ` parents_of bd k"
      proof (rule image_cong [OF refl])
        fix x assume "x \<in> parents_of bd k"
        with npa have "x \<noteq> h" by auto
        then show "layer_of bd2 x = layer_of bd x" by (rule F5)
      qed
      then have mxeq: "Max (layer_of bd2 ` parents_of bd2 k) = Max (layer_of bd ` parents_of bd k)"
        using False by (simp add: F4)
      show ?thesis
        using o lt dc mxeq by (simp add: same g)
    qed
  qed
  show ?thesis
    unfolding dag_inv_def using fin2 blk2 links2 tips2 cnt2 gdom2 by blast
qed

lemma HasBlocks_dom:
  assumes "HasBlocks bd hs" and "Some x \<in> set hs"
  shows "x \<in> dom (blocks bd)"
  using assms by (auto simp: HasBlocks_iff HasBlock_def GetBlock_def)

text \<open>
  One call of \<open>AddBlock\<close> on a state that satisfies the invariant: it does not panic, it
  keeps the invariant, and the blocks that were there keep what the framework owns of
  them, but for their children.
\<close>

lemma AddBlock_frame_inv:
  fixes bd :: "'i BlockDAG"
  assumes inv: "dag_inv bd" and nowrap: "blockTotal bd \<noteq> - 1"
  shows "AddBlock_frame bd bo = Inr None \<or>
     (\<exists>bd2 h. AddBlock_frame bd bo = Inr (Some (bd2, h)) \<and> dag_inv bd2 \<and>
        blockTotal bd2 = blockTotal bd + 1 \<and> blocks bd h = None \<and>
        (\<forall>k b. blocks bd k = Some b \<longrightarrow>
           (\<exists>b'. blocks bd2 k = Some b' \<and> b_id b' = b_id b \<and> b_hash b' = b_hash b \<and>
                 b_parents b' = b_parents b \<and> b_layer b' = b_layer b)))"
proof (cases bo)
  case None
  then show ?thesis by (simp add: AddBlock_frame_def)
next
  case (Some b)
  show ?thesis
  proof (cases "HasBlock bd (Some (d_hash b)) \<or> (0 < blockTotal bd \<and> (d_parents b = [] \<or> \<not> HasBlocks bd (d_parents b)))")
    case True
    then show ?thesis using Some by (auto simp: AddBlock_frame_def GetBlockTotal_def)
  next
    case False
    then have nh: "\<not> HasBlock bd (Some (d_hash b))"
      and par: "0 < blockTotal bd \<longrightarrow> d_parents b \<noteq> [] \<and> HasBlocks bd (d_parents b)"
      by auto
    define P where "P = {x. 0 < blockTotal bd \<and> Some x \<in> set (d_parents b)}"
    from AddBlock_frame_accept [OF inv nh par] obtain bd2 nb where
      fr: "AddBlock_frame bd (Some b) = Inr (Some (bd2, d_hash b))"
      and bl: "blocks bd2 = (\<lambda>x. if x = d_hash b then Some nb
                        else if 0 < blockTotal bd \<and> Some x \<in> set (d_parents b)
                             then map_option (\<lambda>p. Block_AddChild p (d_hash b)) (blocks bd x)
                             else blocks bd x)"
      and nb: "b_hash nb = d_hash b" "b_id nb = blockTotal bd" "b_children nb = None"
      and nbp: "if 0 < blockTotal bd
      then (\<exists>ps. b_parents nb = Some ps \<and> set ps = {x. Some x \<in> set (d_parents b)} \<and> distinct ps \<and> ps \<noteq> []) \<and>
           (\<exists>ml. b_layer nb = ml + 1 \<and>
                 (\<exists>x pb. Some x \<in> set (d_parents b) \<and> blocks bd x = Some pb \<and> b_layer pb = ml) \<and>
                 (\<forall>x pb. Some x \<in> set (d_parents b) \<longrightarrow> blocks bd x = Some pb \<longrightarrow> b_layer pb \<le> ml))
      else b_parents nb = None \<and> b_layer nb = 0"
      and gen: "genesis bd2 = (if blockTotal bd = 0 then d_hash b else genesis bd)"
      and tot: "blockTotal bd2 = blockTotal bd + 1"
      and tip: "tips bd2 = Some (HashSet_Add
        (filter (\<lambda>t. \<not> (0 < blockTotal bd \<and> Some t \<in> set (d_parents b)))
           (case tips bd of None \<Rightarrow> [] | Some ts \<Rightarrow> ts)) (d_hash b))"
      by blast
    have hnew: "blocks bd (d_hash b) = None" using nh by (simp add: HasBlock_def GetBlock_def)
    have Pdom: "P \<subseteq> dom (blocks bd)" using par HasBlocks_dom by (auto simp: P_def)
    have P0: "blockTotal bd = 0 \<longrightarrow> P = {}" by (simp add: P_def)
    have bl': "blocks bd2 = (\<lambda>x. if x = d_hash b then Some nb
                        else if x \<in> P then map_option (\<lambda>p. Block_AddChild p (d_hash b)) (blocks bd x)
                             else blocks bd x)"
      by (simp add: bl P_def cong: if_cong)
    have nbp': "if 0 < blockTotal bd
      then (\<exists>ps. b_parents nb = Some ps \<and> set ps = P \<and> distinct ps \<and> ps \<noteq> []) \<and>
           (\<exists>ml. b_layer nb = ml + 1 \<and>
                 (\<exists>x pb. x \<in> P \<and> blocks bd x = Some pb \<and> b_layer pb = ml) \<and>
                 (\<forall>x pb. x \<in> P \<longrightarrow> blocks bd x = Some pb \<longrightarrow> b_layer pb \<le> ml))
      else b_parents nb = None \<and> b_layer nb = 0"
      using nbp by (simp add: P_def cong: if_cong)
    have tip': "tips bd2 = Some (HashSet_Add (filter (\<lambda>t. t \<notin> P) (case tips bd of None \<Rightarrow> [] | Some ts \<Rightarrow> ts)) (d_hash b))"
      by (simp add: tip P_def)
    have inv2: "dag_inv bd2"
      by (rule dag_inv_insert [OF inv nowrap hnew Pdom P0 bl' nb nbp' gen tot tip'])
    have keep: "\<forall>k b0. blocks bd k = Some b0 \<longrightarrow>
           (\<exists>b'. blocks bd2 k = Some b' \<and> b_id b' = b_id b0 \<and> b_hash b' = b_hash b0 \<and>
                 b_parents b' = b_parents b0 \<and> b_layer b' = b_layer b0)"
      using hnew by (auto simp: bl')
    show ?thesis using Some fr inv2 tot hnew keep by blast
  qed
qed

lemma same_skeleton_keep:
  assumes "same_skeleton bd bd1" and "blocks bd k = Some b"
  shows "\<exists>b'. blocks bd1 k = Some b' \<and> b_id b' = b_id b \<and> b_hash b' = b_hash b \<and>
               b_parents b' = b_parents b \<and> b_layer b' = b_layer b"
proof -
  from assms(1) have "map_option skeleton (blocks bd1 k) = map_option skeleton (blocks bd k)"
    by (simp add: same_skeleton_def)
  with assms(2) show ?thesis by (cases "blocks bd1 k") (auto simp: skeleton_def)
qed

lemma AddBlock_inv:
  fixes bd :: "'i BlockDAG"
  assumes inv: "dag_inv bd" and ks: "keeps_skeleton inst" and nowrap: "blockTotal bd \<noteq> - 1"
  shows "\<exists>r bd1. AddBlock inst bd bo = Inr (r, bd1) \<and> dag_inv bd1 \<and>
     (blockTotal bd1 = blockTotal bd \<or> blockTotal bd1 = blockTotal bd + 1) \<and>
     (\<forall>k b. blocks bd k = Some b \<longrightarrow>
           (\<exists>b'. blocks bd1 k = Some b' \<and> b_id b' = b_id b \<and> b_hash b' = b_hash b \<and>
                 b_parents b' = b_parents b \<and> b_layer b' = b_layer b))"
proof -
  from AddBlock_frame_inv [OF inv nowrap, of bo] show ?thesis
  proof
    assume "AddBlock_frame bd bo = Inr None"
    then show ?thesis using inv by (simp add: AddBlock_def)
  next
    assume "\<exists>bd2 h. AddBlock_frame bd bo = Inr (Some (bd2, h)) \<and> dag_inv bd2 \<and>
        blockTotal bd2 = blockTotal bd + 1 \<and> blocks bd h = None \<and>
        (\<forall>k b. blocks bd k = Some b \<longrightarrow>
           (\<exists>b'. blocks bd2 k = Some b' \<and> b_id b' = b_id b \<and> b_hash b' = b_hash b \<and>
                 b_parents b' = b_parents b \<and> b_layer b' = b_layer b))"
    then obtain bd2 h where fr: "AddBlock_frame bd bo = Inr (Some (bd2, h))" and inv2: "dag_inv bd2"
      and tot: "blockTotal bd2 = blockTotal bd + 1"
      and keep: "\<And>k b. blocks bd k = Some b \<Longrightarrow>
           (\<exists>b'. blocks bd2 k = Some b' \<and> b_id b' = b_id b \<and> b_hash b' = b_hash b \<and>
                 b_parents b' = b_parents b \<and> b_layer b' = b_layer b)"
      by blast
    obtain r bd3 where st: "inst_AddBlock inst bd2 h = (r, bd3)" by (cases "inst_AddBlock inst bd2 h")
    from ks have ss: "same_skeleton bd2 bd3"
      unfolding keeps_skeleton_def using st by (metis snd_conv)
    have inv3: "dag_inv bd3" by (rule dag_inv_same_skeleton [OF inv2 ss])
    have tot3: "blockTotal bd3 = blockTotal bd + 1" using ss tot by (simp add: same_skeleton_def)
    have keep3: "\<forall>k b. blocks bd k = Some b \<longrightarrow>
           (\<exists>b'. blocks bd3 k = Some b' \<and> b_id b' = b_id b \<and> b_hash b' = b_hash b \<and>
                 b_parents b' = b_parents b \<and> b_layer b' = b_layer b)"
    proof (intro allI impI)
      fix k b assume "blocks bd k = Some b"
      from keep [OF this] obtain b2 where b2: "blocks bd2 k = Some b2" "b_id b2 = b_id b" "b_hash b2 = b_hash b"
         "b_parents b2 = b_parents b" "b_layer b2 = b_layer b" by blast
      from same_skeleton_keep [OF ss b2(1)] b2(2-)
      show "\<exists>b'. blocks bd3 k = Some b' \<and> b_id b' = b_id b \<and> b_hash b' = b_hash b \<and>
                 b_parents b' = b_parents b \<and> b_layer b' = b_layer b" by auto
    qed
    show ?thesis using fr st inv3 tot3 keep3 by (simp add: AddBlock_def)
  qed
qed

lemma unat_max_uint: "unat (- 1 :: uint) = 2 ^ 64 - 1"
  by (simp add: unsigned_minus_1_eq_mask mask_eq_exp_minus_1)

lemma not_max_uint: "unat (w :: uint) < 2 ^ 64 - 1 \<Longrightarrow> w \<noteq> - 1"
  using unat_max_uint by auto

lemma unat_succ_le: "unat ((w :: uint) + 1) \<le> Suc (unat w)"
proof (cases "w = - 1")
  case True
  then show ?thesis by simp
next
  case False
  then show ?thesis by (simp add: unat_word_succ)
qed

lemma AddBlock_state_inv:
  fixes bd :: "'i BlockDAG"
  assumes inv: "dag_inv bd" and ks: "keeps_skeleton inst" and nowrap: "blockTotal bd \<noteq> - 1"
  shows "dag_inv (AddBlock_state inst bd bo)"
    and "unat (blockTotal (AddBlock_state inst bd bo)) \<le> Suc (unat (blockTotal bd))"
    and "blocks bd k = Some b \<Longrightarrow>
           (\<exists>b'. blocks (AddBlock_state inst bd bo) k = Some b' \<and> b_id b' = b_id b \<and> b_hash b' = b_hash b \<and>
                 b_parents b' = b_parents b \<and> b_layer b' = b_layer b)"
proof -
  from AddBlock_inv [OF inv ks nowrap, of bo] obtain r bd1 where
    a: "AddBlock inst bd bo = Inr (r, bd1)" and i: "dag_inv bd1"
    and t: "blockTotal bd1 = blockTotal bd \<or> blockTotal bd1 = blockTotal bd + 1"
    and k: "\<forall>k b. blocks bd k = Some b \<longrightarrow>
           (\<exists>b'. blocks bd1 k = Some b' \<and> b_id b' = b_id b \<and> b_hash b' = b_hash b \<and>
                 b_parents b' = b_parents b \<and> b_layer b' = b_layer b)"
    by blast
  have s: "AddBlock_state inst bd bo = bd1" using a by (simp add: AddBlock_state_def)
  show "dag_inv (AddBlock_state inst bd bo)" using i s by simp
  show "unat (blockTotal (AddBlock_state inst bd bo)) \<le> Suc (unat (blockTotal bd))"
    using t s unat_succ_le [of "blockTotal bd"] by auto
  show "blocks bd k = Some b \<Longrightarrow>
           (\<exists>b'. blocks (AddBlock_state inst bd bo) k = Some b' \<and> b_id b' = b_id b \<and> b_hash b' = b_hash b \<and>
                 b_parents b' = b_parents b \<and> b_layer b' = b_layer b)"
    using k s by simp
qed

lemma AddBlocks_inv:
  fixes bd :: "'i BlockDAG"
  assumes "dag_inv bd" and "keeps_skeleton inst" and "unat (blockTotal bd) + length ds < 2 ^ 64"
  shows "dag_inv (AddBlocks inst bd ds)"
  using assms
proof (induction ds arbitrary: bd)
  case Nil
  then show ?case by simp
next
  case (Cons d ds)
  have nw: "blockTotal bd \<noteq> - 1" using Cons.prems(3) by (intro not_max_uint) simp
  note st = AddBlock_state_inv [OF Cons.prems(1,2) nw, where bo = d]
  have "unat (blockTotal (AddBlock_state inst bd d)) + length ds < 2 ^ 64"
    using st(2) Cons.prems(3) by simp
  from Cons.IH [OF st(1) Cons.prems(2) this] show ?case by simp
qed

lemma AddBlocks_keep:
  fixes bd :: "'i BlockDAG"
  assumes "dag_inv bd" and "keeps_skeleton inst" and "unat (blockTotal bd) + length ds < 2 ^ 64"
    and "blocks bd k = Some b"
  shows "\<exists>b'. blocks (AddBlocks inst bd ds) k = Some b' \<and> b_id b' = b_id b \<and> b_hash b' = b_hash b \<and>
                 b_parents b' = b_parents b \<and> b_layer b' = b_layer b"
  using assms
proof (induction ds arbitrary: bd b)
  case Nil
  then show ?case by simp
next
  case (Cons d ds)
  have nw: "blockTotal bd \<noteq> - 1" using Cons.prems(3) by (intro not_max_uint) simp
  note st = AddBlock_state_inv [OF Cons.prems(1,2) nw, where bo = d]
  have len: "unat (blockTotal (AddBlock_state inst bd d)) + length ds < 2 ^ 64"
    using st(2) Cons.prems(3) by simp
  from st(3) [OF Cons.prems(4)] obtain b1 where b1: "blocks (AddBlock_state inst bd d) k = Some b1"
     "b_id b1 = b_id b" "b_hash b1 = b_hash b" "b_parents b1 = b_parents b" "b_layer b1 = b_layer b"
    by blast
  from Cons.IH [OF st(1) Cons.prems(2) len b1(1)] b1(2-) show ?case by auto
qed

lemma AddBlocks_append: "AddBlocks inst bd (ds @ es) = AddBlocks inst (AddBlocks inst bd ds) es"
  by (induction ds arbitrary: bd) auto

lemma new_run_inv:
  assumes "keeps_skeleton inst" and "is_new bd0" and "length ds < 2 ^ 64"
  shows "dag_inv (AddBlocks inst bd0 ds)"
proof -
  have "unat (blockTotal bd0) + length ds < 2 ^ 64" using assms(2,3) by (simp add: is_new_def)
  then show ?thesis using AddBlocks_inv [OF dag_inv_new [OF assms(2)] assms(1)] by blast
qed

lemma chain_keeps_skeleton: "keeps_skeleton chain_strategy"
  unfolding keeps_skeleton_def same_skeleton_def
  by (auto simp: chain_strategy_def chain_AddBlock_def skeleton_def split: option.splits)

subsection \<open>Tips and layers\<close>

lemma new_dag_is_new: "is_new new_dag"
  by (simp add: is_new_def new_dag_def)

lemma updateTips_result:
  assumes "tips bd = Some ts" and "set ts \<subseteq> dom (blocks bd)"
  shows "updateTips bd b =
     Inr (bd\<lparr>tips := Some (HashSet_Add (filter (\<lambda>t. children_of bd t = {}) ts) (b_hash b))\<rparr>)"
proof -
  have "filter (\<lambda>t. \<not> (t \<in> set ts \<and> children_of bd t \<noteq> {})) ts = filter (\<lambda>t. children_of bd t = {}) ts"
    by (rule filter_cong) auto
  then show ?thesis
    using assms(1) updateTips_loop_result [OF assms(2), of ts] by (simp add: updateTips_def)
qed

text \<open>
  C2. Tip correctness is an invariant. After any sequence of \<open>AddBlock\<close> calls on a
  new DAG, with a strategy that leaves alone what the framework owns, the tips are exactly
  the hashes of the blocks whose children set is empty. \<open>updateTips\<close> removes every
  current tip that has a child by now and inserts the new block.
\<close>

theorem tips_correct:
  assumes "keeps_skeleton inst" and "is_new bd0" and "length ds < 2 ^ 64"
    and "bd = AddBlocks inst bd0 ds"
  shows "(case tips bd of None \<Rightarrow> {} | Some ts \<Rightarrow> set ts) = {h \<in> dom (blocks bd). children_of bd h = {}} \<and>
     (\<forall>bd1 :: 'i BlockDAG. \<forall>b ts. tips bd1 = Some ts \<and> set ts \<subseteq> dom (blocks bd1) \<longrightarrow>
        updateTips bd1 b =
          Inr (bd1\<lparr>tips := Some (HashSet_Add (filter (\<lambda>t. children_of bd1 t = {}) ts) (b_hash b))\<rparr>))"
proof -
  have inv: "dag_inv bd" using new_run_inv [OF assms(1-3)] assms(4) by simp
  then have "case tips bd of None \<Rightarrow> blocks bd = Map.empty
       | Some ts \<Rightarrow> distinct ts \<and> set ts = {h \<in> dom (blocks bd). children_of bd h = {}}"
    unfolding dag_inv_def by blast
  then have "(case tips bd of None \<Rightarrow> {} | Some ts \<Rightarrow> set ts) = {h \<in> dom (blocks bd). children_of bd h = {}}"
    by (cases "tips bd") auto
  then show ?thesis using updateTips_result by blast
qed

theorem tips_correct_witness:
  "tips diamond = Some [4] \<and> {h \<in> dom (blocks diamond). children_of diamond h = {}} = {4} \<and>
   map_sum id tips (updateTips diamond \<lparr>b_id = 4, b_hash = 9, b_parents = None, b_children = None,
      b_mainParent = None, b_weight = 1, b_layer = 0, b_order = 0, b_height = 0\<rparr>) = Inr (Some [4, 9])"
proof -
  have t: "tips diamond = Some [4]" by code_simp
  have l: "length [blockData 1 [], blockData 2 [1], blockData 3 [1], blockData 4 [2, 3]] < (2 :: nat) ^ 64" by simp
  have d: "blocks diamond 4 \<noteq> None" by code_simp
  have c: "children_of diamond 4 = {}" by (simp add: children_of_def) code_simp
  note th = tips_correct [OF chain_keeps_skeleton new_dag_is_new l diamond_def]
  from th [THEN conjunct1] t have "{4} = {h \<in> dom (blocks diamond). children_of diamond h = {}}"
    by simp
  then have a: "{h \<in> dom (blocks diamond). children_of diamond h = {}} = {4}"
    by simp
  from d have sub: "set [4] \<subseteq> dom (blocks diamond)" by auto
  note u = th [THEN conjunct2, rule_format, OF conjI [OF t sub]]
  show ?thesis using t a c u by (simp add: HashSet_Add_def HashSet_Has_def)
qed

lemma dag_inv_parents_dom:
  assumes "dag_inv bd"
  shows "parents_of bd k \<subseteq> dom (blocks bd)"
proof
  fix p assume "p \<in> parents_of bd k"
  with assms have "k \<in> children_of bd p" unfolding dag_inv_def by blast
  then show "p \<in> dom (blocks bd)" by (auto simp: children_of_def split: option.splits)
qed

text \<open>
  C3. Layer correctness is an invariant. After any sequence of \<open>AddBlock\<close> calls on a
  new DAG, genesis has layer 0, and every other block has parents, all present, and its
  layer is 1 plus the greatest layer of its parents, as natural numbers: the addition in
  \<open>uint\<close> does not wrap around. Later calls leave the layer and the parents of a block
  as they are.
\<close>

theorem layers_correct:
  assumes "keeps_skeleton inst" and "is_new bd0" and "length (ds @ es) < 2 ^ 64"
    and "bd = AddBlocks inst bd0 ds"
  shows "(blocks bd \<noteq> Map.empty \<longrightarrow> (\<exists>g. blocks bd (genesis bd) = Some g \<and> b_layer g = 0)) \<and>
     (\<forall>k b. blocks bd k = Some b \<and> k \<noteq> genesis bd \<longrightarrow>
        parents_of bd k \<noteq> {} \<and> parents_of bd k \<subseteq> dom (blocks bd) \<and>
        unat (b_layer b) = 1 + Max (layer_of bd ` parents_of bd k) \<and>
        (\<forall>p \<in> parents_of bd k. layer_of bd p < unat (b_layer b))) \<and>
     (\<forall>k b. blocks bd k = Some b \<longrightarrow>
        (\<exists>b'. blocks (AddBlocks inst bd0 (ds @ es)) k = Some b' \<and> b_layer b' = b_layer b \<and>
              b_parents b' = b_parents b))"
proof -
  have l1: "length ds < 2 ^ 64" using assms(3) by simp
  have inv: "dag_inv bd" using new_run_inv [OF assms(1,2) l1] assms(4) by simp
  from inv have fin: "finite (dom (blocks bd))"
    and gdom: "blocks bd \<noteq> Map.empty \<longrightarrow> genesis bd \<in> dom (blocks bd)"
    and cnt: "unat (blockTotal bd) = card (dom (blocks bd))"
    and old: "\<And>k b. blocks bd k = Some b \<Longrightarrow>
         (if k = genesis bd then b_parents b = None \<and> b_layer b = 0
          else (\<exists>ps. b_parents b = Some ps \<and> ps \<noteq> []) \<and>
               unat (b_layer b) = Suc (Max (layer_of bd ` parents_of bd k)))"
    unfolding dag_inv_def by blast+
  have g: "blocks bd \<noteq> Map.empty \<longrightarrow> (\<exists>g. blocks bd (genesis bd) = Some g \<and> b_layer g = 0)"
  proof
    assume "blocks bd \<noteq> Map.empty"
    with gdom obtain g where g: "blocks bd (genesis bd) = Some g" by auto
    from old [OF g] g show "\<exists>g. blocks bd (genesis bd) = Some g \<and> b_layer g = 0" by simp
  qed
  have p: "\<forall>k b. blocks bd k = Some b \<and> k \<noteq> genesis bd \<longrightarrow>
        parents_of bd k \<noteq> {} \<and> parents_of bd k \<subseteq> dom (blocks bd) \<and>
        unat (b_layer b) = 1 + Max (layer_of bd ` parents_of bd k) \<and>
        (\<forall>p \<in> parents_of bd k. layer_of bd p < unat (b_layer b))"
  proof (intro allI impI)
    fix k b assume kb: "blocks bd k = Some b \<and> k \<noteq> genesis bd"
    with old [of k b] obtain ps where ps: "b_parents b = Some ps" "ps \<noteq> []"
      and lay: "unat (b_layer b) = Suc (Max (layer_of bd ` parents_of bd k))" by auto
    have pk: "parents_of bd k = set ps" using kb ps by (simp add: parents_of_def)
    then have ne: "parents_of bd k \<noteq> {}" using ps(2) by simp
    have fp: "finite (layer_of bd ` parents_of bd k)" using pk by simp
    have "\<forall>p \<in> parents_of bd k. layer_of bd p < unat (b_layer b)"
      using lay Max_ge [OF fp] by (auto simp: less_Suc_eq_le)
    then show "parents_of bd k \<noteq> {} \<and> parents_of bd k \<subseteq> dom (blocks bd) \<and>
        unat (b_layer b) = 1 + Max (layer_of bd ` parents_of bd k) \<and>
        (\<forall>p \<in> parents_of bd k. layer_of bd p < unat (b_layer b))"
      using ne lay dag_inv_parents_dom [OF inv] by simp
  qed
  have bound: "unat (blockTotal bd) + length es < 2 ^ 64"
  proof -
    have "unat (blockTotal bd0) + length ds < 2 ^ 64" using assms(2) l1 by (simp add: is_new_def)
    have "unat (blockTotal bd) \<le> length ds"
      using assms(2,4) l1
    proof (induction ds arbitrary: bd rule: rev_induct)
      case Nil
      then show ?case by (simp add: is_new_def)
    next
      case (snoc d ds)
      have l: "length ds < 2 ^ 64" using snoc.prems(3) by simp
      define bdm where "bdm = AddBlocks inst bd0 ds"
      have le: "unat (blockTotal bdm) \<le> length ds" using snoc.IH [OF snoc.prems(1) bdm_def l] .
      have im: "dag_inv bdm" using new_run_inv [OF assms(1) snoc.prems(1) l] bdm_def by simp
      have nw: "blockTotal bdm \<noteq> - 1" using le snoc.prems(3) by (intro not_max_uint) simp
      have "bd = AddBlock_state inst bdm d" using snoc.prems(2) by (simp add: AddBlocks_append bdm_def)
      with AddBlock_state_inv(2) [OF im assms(1) nw, of d] le show ?case by simp
    qed
    with assms(3) show ?thesis by simp
  qed
  have k: "\<forall>k b. blocks bd k = Some b \<longrightarrow>
        (\<exists>b'. blocks (AddBlocks inst bd0 (ds @ es)) k = Some b' \<and> b_layer b' = b_layer b \<and>
              b_parents b' = b_parents b)"
  proof (intro allI impI)
    fix k b assume "blocks bd k = Some b"
    from AddBlocks_keep [OF inv assms(1) bound this]
    show "\<exists>b'. blocks (AddBlocks inst bd0 (ds @ es)) k = Some b' \<and> b_layer b' = b_layer b \<and>
              b_parents b' = b_parents b"
      by (auto simp: AddBlocks_append assms(4))
  qed
  show ?thesis using g p k by blast
qed

theorem layers_correct_witness:
  "genesis diamond = 1 \<and> map_option b_layer (blocks diamond 1) = Some 0 \<and>
   map_option b_layer (blocks diamond 4) = Some 2 \<and> parents_of diamond 4 = {2, 3} \<and>
   (2 :: nat) = 1 + Max (layer_of diamond ` parents_of diamond 4) \<and>
   map_option b_layer (blocks (AddBlocks chain_strategy diamond [blockData 5 [4]]) 4) = Some 2"
proof -
  have g: "genesis diamond = 1" by code_simp
  have b1: "map_option b_layer (blocks diamond 1) = Some 0" by code_simp
  have b4: "map_option b_layer (blocks diamond 4) = Some 2" by code_simp
  have p4: "parents_of diamond 4 = {2, 3}" by (simp add: parents_of_def) code_simp
  have b5: "map_option b_layer (blocks (AddBlocks chain_strategy diamond [blockData 5 [4]]) 4) = Some 2"
    by code_simp
  have l: "length ([blockData 1 [], blockData 2 [1], blockData 3 [1], blockData 4 [2, 3]] @ [blockData 5 [4]])
      < (2 :: nat) ^ 64" by simp
  note th = layers_correct [OF chain_keeps_skeleton new_dag_is_new l diamond_def]
  from b4 obtain b where b: "blocks diamond 4 = Some b" "b_layer b = 2" by auto
  from th [THEN conjunct2, THEN conjunct1, rule_format, of 4 b] b(1) g
  have "unat (b_layer b) = 1 + Max (layer_of diamond ` parents_of diamond 4)" by simp
  with b(2) have "(2 :: nat) = 1 + Max (layer_of diamond ` parents_of diamond 4)" by simp
  with g b1 b4 p4 b5 show ?thesis by simp
qed

subsection \<open>The locator returns a short sorted list\<close>

lemma nat_sint_le_unat: "nat (sint (w :: 'a :: len word)) \<le> unat w"
proof (cases "0 \<le> sint w")
  case True
  have "sint w < 2 ^ (LENGTH('a) - 1)" by (rule sint_lt)
  also have "\<dots> \<le> (2 :: int) ^ LENGTH('a)" by (rule power_increasing) auto
  finally have "take_bit LENGTH('a) (sint w) = sint w" using True by (simp add: take_bit_int_eq_self)
  then have "uint w = sint w" by (simp add: uint_sint)
  then show ?thesis by (metis nat_le_iff order_refl unat_eq_nat_uint nat_uint_eq of_nat_nat True le_refl)
next
  case False
  then show ?thesis by simp
qed

lemma LocateBlocks_slice_result:
  assumes "LocateBlocks_slice bd fs = Inr bs"
  shows "map Some bs = map (blocks bd) fs"
  using assms
  by (induction fs arbitrary: bs) (auto split: option.splits sum.splits)

lemma LocateBlocks_slice_total:
  assumes "set fs \<subseteq> dom (blocks bd)"
  shows "\<exists>bs. LocateBlocks_slice bd fs = Inr bs"
  using assms
  by (induction fs) (auto split: option.splits sum.splits)

lemma LocateBlocks_parents_result:
  "LocateBlocks_parents fs queue ps = queue @ filter (\<lambda>p. p \<notin> set fs) ps"
  by (induction ps arbitrary: queue) (auto simp: HashSet_Has_def)

lemma LocateBlocks_tips_result:
  assumes "set ts \<subseteq> dom (blocks bd)" and "\<forall>k b. blocks bd k = Some b \<longrightarrow> b_hash b = k"
  shows "\<exists>fs1. LocateBlocks_tips bd queue fs ts = Inr (queue @ ts, fs1) \<and> set fs1 = set fs \<union> set ts \<and>
     (distinct fs \<longrightarrow> distinct fs1)"
  using assms
proof (induction ts arbitrary: queue fs)
  case Nil
  then show ?case by simp
next
  case (Cons t ts)
  then obtain b where b: "blocks bd t = Some b" "b_hash b = t" by auto
  have sub: "set ts \<subseteq> dom (blocks bd)" using Cons.prems(1) by auto
  from Cons.IH [OF sub Cons.prems(2), of "queue @ [t]" "HashSet_Add fs t"]
  show ?case using b by auto
qed

lemma LocateBlocks_loop_Suc:
  "LocateBlocks_loop n bd gs q fs = Inr x \<Longrightarrow> LocateBlocks_loop (Suc n) bd gs q fs = Inr x"
proof (induction n arbitrary: q fs)
  case 0
  then show ?case by (cases q) auto
next
  case (Suc n)
  show ?case
  proof (cases q)
    case Nil
    then show ?thesis using Suc.prems by simp
  next
    case (Cons cur rest)
    show ?thesis
    proof (cases "blocks bd cur")
      case None
      then show ?thesis using Suc.prems Cons by simp
    next
      case (Some curb)
      define go where "go = (\<lambda>k. LocateBlocks_loop k bd gs
                 (if Block_HasParents curb
                  then (case b_parents curb of
                          None \<Rightarrow> rest
                        | Some ps \<Rightarrow> LocateBlocks_parents (HashSet_Add fs (b_hash curb)) rest ps)
                  else rest)
                 (HashSet_Add fs (b_hash curb)))"
      define stay where "stay = (\<lambda>k. LocateBlocks_loop k bd gs rest fs)"
      define c1 where "c1 = HashSet_Has (gs_tips gs) (b_hash curb)"
      define c2 where "c2 = (if Block_HasChildren curb
                   then (case b_children curb of
                           None \<Rightarrow> True
                         | Some cs \<Rightarrow> LocateBlocks_children gs fs cs)
                   else True)"
      have unf: "\<And>k. LocateBlocks_loop (Suc k) bd gs q fs = (if c1 then stay k else if c2 then go k else stay k)"
        by (simp add: Cons Some go_def stay_def c1_def c2_def)
      have g: "go n = Inr x \<Longrightarrow> go (Suc n) = Inr x" unfolding go_def by (rule Suc.IH)
      have s: "stay n = Inr x \<Longrightarrow> stay (Suc n) = Inr x" unfolding stay_def by (rule Suc.IH)
      from Suc.prems show ?thesis unfolding unf using g s by (auto split: if_splits)
    qed
  qed
qed

lemma LocateBlocks_loop_mono:
  "LocateBlocks_loop n bd gs q fs = Inr x \<Longrightarrow> n \<le> m \<Longrightarrow> LocateBlocks_loop m bd gs q fs = Inr x"
  by (induction m) (auto simp: le_Suc_eq LocateBlocks_loop_Suc)

lemma sum_list_le_length:
  "(\<forall>x \<in> set xs. f x \<le> (c :: nat)) \<Longrightarrow> sum_list (map f xs) \<le> length xs * c"
  by (induction xs) auto

lemma parents_weight:
  assumes inv: "dag_inv bd" and cur: "blocks bd cur = Some curb" and ps: "b_parents curb = Some ps"
  shows "locate_weight bd (filter P ps) < Suc (card (dom (blocks bd))) ^ layer_of bd cur"
    and "set ps \<subseteq> dom (blocks bd)"
proof -
  define K where "K = card (dom (blocks bd))"
  from inv cur have c: "if cur = genesis bd then b_parents curb = None \<and> b_layer curb = 0
          else (\<exists>ps. b_parents curb = Some ps \<and> ps \<noteq> []) \<and>
               unat (b_layer curb) = Suc (Max (layer_of bd ` parents_of bd cur))"
    and d: "\<forall>ps. b_parents curb = Some ps \<longrightarrow> distinct ps"
    unfolding dag_inv_def by blast+
  from inv have fin: "finite (dom (blocks bd))" unfolding dag_inv_def by blast
  from c ps have lay: "unat (b_layer curb) = Suc (Max (layer_of bd ` parents_of bd cur))"
    by (auto split: if_splits)
  have pk: "parents_of bd cur = set ps" using cur ps by (simp add: parents_of_def)
  show sub: "set ps \<subseteq> dom (blocks bd)" using dag_inv_parents_dom [OF inv, of cur] pk by simp
  define M where "M = Max (layer_of bd ` set ps)"
  have lc: "layer_of bd cur = Suc M" using lay cur pk by (simp add: layer_of_def M_def)
  have dist: "distinct ps" using d ps by simp
  have "length ps = card (set ps)" using dist by (simp add: distinct_card)
  also have "\<dots> \<le> K" unfolding K_def by (rule card_mono [OF fin sub])
  finally have len: "length ps \<le> K" .
  have each: "\<forall>x \<in> set (filter P ps). Suc K ^ layer_of bd x \<le> Suc K ^ M"
  proof
    fix x assume "x \<in> set (filter P ps)"
    then have "layer_of bd x \<in> layer_of bd ` set ps" by auto
    then have "layer_of bd x \<le> M" unfolding M_def by (intro Max_ge) auto
    then show "Suc K ^ layer_of bd x \<le> Suc K ^ M" by (intro power_increasing) auto
  qed
  have "locate_weight bd (filter P ps) \<le> length (filter P ps) * Suc K ^ M"
    unfolding locate_weight_def K_def [symmetric] by (rule sum_list_le_length [OF each])
  also have "\<dots> \<le> K * Suc K ^ M"
  proof (rule mult_right_mono)
    show "length (filter P ps) \<le> K" using len length_filter_le [of P ps] by (rule le_trans [rotated])
  qed simp
  also have "\<dots> < Suc K * Suc K ^ M" by simp
  finally show "locate_weight bd (filter P ps) < Suc (card (dom (blocks bd))) ^ layer_of bd cur"
    by (simp add: lc K_def)
qed

lemma locate_weight_simps [simp]:
  "locate_weight bd [] = 0"
  "locate_weight bd (x # xs) = Suc (card (dom (blocks bd))) ^ layer_of bd x + locate_weight bd xs"
  "locate_weight bd (xs @ ys) = locate_weight bd xs + locate_weight bd ys"
  by (simp_all add: locate_weight_def)

lemma LocateBlocks_loop_total:
  assumes inv: "dag_inv bd"
  shows "set q \<subseteq> dom (blocks bd) \<Longrightarrow> locate_weight bd q \<le> n \<Longrightarrow>
     \<exists>fs1. LocateBlocks_loop n bd gs q fs = Inr fs1 \<and> set fs1 \<subseteq> set fs \<union> dom (blocks bd) \<and>
        (distinct fs \<longrightarrow> distinct fs1)"
proof (induction n arbitrary: q fs)
  case 0
  have "q = []"
  proof (cases q)
    case (Cons x xs)
    with 0(2) show ?thesis by simp
  qed simp
  then show ?case by simp
next
  case (Suc n)
  show ?case
  proof (cases q)
    case Nil
    then show ?thesis by simp
  next
    case (Cons cur rest)
    then obtain curb where curb: "blocks bd cur = Some curb" using Suc.prems(1) by auto
    from inv curb have hk: "b_hash curb = cur" unfolding dag_inv_def by blast
    have rsub: "set rest \<subseteq> dom (blocks bd)" using Suc.prems(1) Cons by auto
    have w1: "1 \<le> Suc (card (dom (blocks bd))) ^ layer_of bd cur" by simp
    have "Suc (card (dom (blocks bd))) ^ layer_of bd cur + locate_weight bd rest \<le> Suc n"
      using Suc.prems(2) by (simp add: Cons)
    with w1 have rw: "locate_weight bd rest \<le> n" by linarith
    note same = Suc.IH [OF rsub rw, of fs]
    show ?thesis
    proof (cases "HashSet_Has (gs_tips gs) (b_hash curb)")
      case True
      then show ?thesis using same Cons curb by simp
    next
      case nt: False
      show ?thesis
      proof (cases "if Block_HasChildren curb
                   then (case b_children curb of
                           None \<Rightarrow> True
                         | Some cs \<Rightarrow> LocateBlocks_children gs fs cs)
                   else True")
        case False
        then show ?thesis using same Cons curb nt by simp
      next
        case True
        define fs1 where "fs1 = HashSet_Add fs (b_hash curb)"
        define q1 where "q1 = (if Block_HasParents curb
                  then (case b_parents curb of
                          None \<Rightarrow> rest
                        | Some ps \<Rightarrow> LocateBlocks_parents fs1 rest ps)
                  else rest)"
        have step: "LocateBlocks_loop (Suc n) bd gs q fs = LocateBlocks_loop n bd gs q1 fs1"
          using Cons curb nt True by (simp add: q1_def fs1_def cong: option.case_cong if_cong)
        have q1: "set q1 \<subseteq> dom (blocks bd) \<and> locate_weight bd q1 \<le> n"
        proof (cases "b_parents curb")
          case None
          then show ?thesis using rsub rw by (simp add: q1_def)
        next
          case (Some ps)
          note pw = parents_weight(1) [OF inv curb Some, of "\<lambda>p. p \<notin> set fs1"]
            parents_weight(2) [OF inv curb Some]
          have "q1 = rest \<or> q1 = rest @ filter (\<lambda>p. p \<notin> set fs1) ps"
            using Some by (simp add: q1_def LocateBlocks_parents_result)
          then show ?thesis
          proof
            assume "q1 = rest"
            then show ?thesis using rsub rw by simp
          next
            assume e: "q1 = rest @ filter (\<lambda>p. p \<notin> set fs1) ps"
            have "locate_weight bd q1 < locate_weight bd q" using pw(1) by (simp add: e Cons)
            then show ?thesis using Suc.prems(2) rsub pw(2) by (auto simp: e)
          qed
        qed
        from Suc.IH [of q1 fs1] q1 obtain fs2 where
          r: "LocateBlocks_loop n bd gs q1 fs1 = Inr fs2" "set fs2 \<subseteq> set fs1 \<union> dom (blocks bd)"
            "distinct fs1 \<longrightarrow> distinct fs2"
          by blast
        have "set fs1 \<subseteq> set fs \<union> dom (blocks bd)" using curb hk by (auto simp: fs1_def)
        then show ?thesis using step r by (auto simp: fs1_def)
      qed
    qed
  qed
qed

lemma GetGraphState_layer_total:
  "set ts \<subseteq> dom (blocks bd) \<Longrightarrow> \<exists>l1. GetGraphState_layer bd l ts = Inr l1"
  by (induction ts arbitrary: l) auto

lemma GetGraphState_total:
  assumes "dag_inv bd" and "inst_GetMainChainTip inst bd \<noteq> None"
  shows "\<exists>own. GetGraphState inst bd = Inr own"
proof (cases "tips bd")
  case None
  then show ?thesis using assms(2) by (auto simp: GetGraphState_def)
next
  case (Some ts)
  with assms(1) have "set ts \<subseteq> dom (blocks bd)" unfolding dag_inv_def by auto
  from GetGraphState_layer_total [OF this, of 0] obtain l where "GetGraphState_layer bd 0 ts = Inr l"
    by blast
  then show ?thesis using Some assms(2) by (auto simp: GetGraphState_def)
qed

lemma LocateBlocks_mono:
  assumes "LocateBlocks isExcellent inst n bd gs maxHashes = Inr r" and "n \<le> m"
  shows "LocateBlocks isExcellent inst m bd gs maxHashes = Inr r"
proof -
  have "\<And>q fs0 x. LocateBlocks_loop n bd gs q fs0 = Inr x \<Longrightarrow> LocateBlocks_loop m bd gs q fs0 = Inr x"
    using assms(2) by (rule LocateBlocks_loop_mono [rotated])
  then show ?thesis
    using assms(1) unfolding LocateBlocks_def
    by (auto split: sum.splits option.splits if_splits prod.splits)
qed

lemma sorted_short: "length xs < 2 \<Longrightarrow> sorted xs"
  by (cases xs; cases "tl xs") auto

lemma LocateBlocks_result:
  assumes keyed: "\<forall>k b. blocks bd k = Some b \<longrightarrow> b_hash b = k"
    and res: "LocateBlocks isExcellent inst n bd gs maxHashes = Inr (Some hs)"
  shows "length hs \<le> unat maxHashes \<and> set hs \<subseteq> dom (blocks bd) \<and> sorted (map (block_key bd) hs)"
proof -
  from res obtain fs fsSlice where
    sl: "LocateBlocks_slice bd fs = Inr fsSlice"
    and hs: "hs = map b_hash (take (nat (sint maxHashes))
                 (if 2 \<le> length fsSlice then BlockSlice_Sort fsSlice else fsSlice))"
    unfolding LocateBlocks_def
    by (auto split: sum.splits option.splits if_splits prod.splits)
  define srt where "srt = (if 2 \<le> length fsSlice then BlockSlice_Sort fsSlice else fsSlice)"
  have stored: "\<forall>b \<in> set fsSlice. blocks bd (b_hash b) = Some b"
  proof
    fix b assume "b \<in> set fsSlice"
    then have "Some b \<in> set (map Some fsSlice)" by simp
    then have "Some b \<in> set (map (blocks bd) fs)" using LocateBlocks_slice_result [OF sl] by simp
    then obtain k where "blocks bd k = Some b" by auto
    with keyed show "blocks bd (b_hash b) = Some b" by auto
  qed
  have set_srt: "set srt = set fsSlice" by (simp add: srt_def BlockSlice_Sort_def)
  have sorted_srt: "sorted (map BlockSlice_key srt)"
    by (auto simp: srt_def BlockSlice_Sort_def intro: sorted_short)
  have keys: "map (block_key bd) hs = take (nat (sint maxHashes)) (map BlockSlice_key srt)"
  proof -
    have "map (block_key bd) hs = map (\<lambda>b. block_key bd (b_hash b)) (take (nat (sint maxHashes)) srt)"
      by (simp add: hs srt_def)
    also have "\<dots> = map BlockSlice_key (take (nat (sint maxHashes)) srt)"
    proof (rule map_cong [OF refl])
      fix b assume "b \<in> set (take (nat (sint maxHashes)) srt)"
      then have "b \<in> set fsSlice" using set_srt by (auto dest: in_set_takeD)
      with stored show "block_key bd (b_hash b) = BlockSlice_key b" by (simp add: block_key_def)
    qed
    finally show ?thesis by (simp add: take_map)
  qed
  have "length hs \<le> nat (sint maxHashes)" by (simp add: hs)
  then have len: "length hs \<le> unat maxHashes" using nat_sint_le_unat [of maxHashes] by simp
  have dom: "set hs \<subseteq> dom (blocks bd)"
  proof
    fix h assume "h \<in> set hs"
    then obtain b where "b \<in> set (take (nat (sint maxHashes)) srt)" "h = b_hash b"
      by (auto simp: hs srt_def)
    then have "b \<in> set fsSlice" "h = b_hash b" using set_srt by (auto dest: in_set_takeD)
    with stored show "h \<in> dom (blocks bd)" by auto
  qed
  show ?thesis using len dom keys sorted_srt by (simp add: sorted_wrt_take)
qed

lemma LocateBlocks_total:
  assumes inv: "dag_inv bd" and tp: "tips bd \<noteq> None" and mt: "inst_GetMainChainTip inst bd \<noteq> None"
  shows "\<exists>N r. \<forall>n \<ge> N. LocateBlocks isExcellent inst n bd gs maxHashes = Inr r"
proof -
  from tp obtain ts where ts: "tips bd = Some ts" by auto
  from inv ts have tsd: "set ts \<subseteq> dom (blocks bd)" unfolding dag_inv_def by auto
  from inv have keyed: "\<forall>k b. blocks bd k = Some b \<longrightarrow> b_hash b = k" unfolding dag_inv_def by blast
  from GetGraphState_total [OF inv mt] obtain own where own: "GetGraphState inst bd = Inr own" by blast
  from LocateBlocks_tips_result [OF tsd keyed, of "[]" NewHashSet] obtain fs0 where
    t0: "LocateBlocks_tips bd [] NewHashSet ts = Inr (ts, fs0)" and f0: "set fs0 = set ts"
    by (auto simp: NewHashSet_def)
  define N where "N = locate_weight bd ts"
  from LocateBlocks_loop_total [OF inv tsd, of N gs fs0] obtain fs1 where
    l1: "LocateBlocks_loop N bd gs ts fs0 = Inr fs1" and f1: "set fs1 \<subseteq> set fs0 \<union> dom (blocks bd)"
    by (auto simp: N_def)
  have "set fs1 \<subseteq> dom (blocks bd)" using f1 f0 tsd by auto
  from LocateBlocks_slice_total [OF this] obtain bs where bs: "LocateBlocks_slice bd fs1 = Inr bs" by blast
  have "\<exists>r. LocateBlocks isExcellent inst N bd gs maxHashes = Inr r"
    using own ts t0 l1 bs by (simp add: LocateBlocks_def)
  then obtain r where r: "LocateBlocks isExcellent inst N bd gs maxHashes = Inr r" by blast
  have "\<forall>n \<ge> N. LocateBlocks isExcellent inst n bd gs maxHashes = Inr r"
    using LocateBlocks_mono [OF r] by blast
  then show ?thesis by blast
qed

text \<open>
  C7. After any sequence of \<open>AddBlock\<close> calls on a new DAG that leaves it with a tip
  and a main-chain tip, \<open>LocateBlocks\<close> returns: from some bound on the rounds of its
  queue loop onwards it gives one and the same result. Whenever it returns a list, the
  list has at most \<open>maxHashes\<close> elements, all of them hashes of blocks, and is sorted
  ascending by \<open>(order, id)\<close>. In the two-tips fixture with a peer whose only tip is
  genesis it returns the hashes of the two other blocks in that order.
\<close>

theorem LocateBlocks_bounded_sorted:
  assumes "keeps_skeleton inst" and "is_new bd0" and "length ds < 2 ^ 64"
    and "bd = AddBlocks inst bd0 ds"
    and "tips bd \<noteq> None" and "inst_GetMainChainTip inst bd \<noteq> None"
  shows "(\<exists>N r. \<forall>n \<ge> N. LocateBlocks isExcellent inst n bd gs maxHashes = Inr r) \<and>
     (\<forall>n hs. LocateBlocks isExcellent inst n bd gs maxHashes = Inr (Some hs) \<longrightarrow>
        length hs \<le> unat maxHashes \<and> set hs \<subseteq> dom (blocks bd) \<and> sorted (map (block_key bd) hs))"
proof -
  have inv: "dag_inv bd" using new_run_inv [OF assms(1-3)] assms(4) by simp
  then have keyed: "\<forall>k b. blocks bd k = Some b \<longrightarrow> b_hash b = k" unfolding dag_inv_def by blast
  show ?thesis
    using LocateBlocks_total [OF inv assms(5,6)] LocateBlocks_result [OF keyed] by blast
qed

theorem LocateBlocks_bounded_sorted_witness:
  "LocateBlocks IsExcellent chain_strategy 10 two_tips
      \<lparr>gs_tips = [1], gs_layer = 0, gs_total = 1, gs_mainHeight = 0\<rparr> 10 = Inr (Some [2, 3]) \<and>
   map (block_key two_tips) [2, 3] = [(1, 1), (2, 2)] \<and>
   sorted (map (block_key two_tips) [2, 3]) \<and> length [2 :: hash, 3] \<le> unat (10 :: uint)"
proof -
  have r: "LocateBlocks IsExcellent chain_strategy 10 two_tips
      \<lparr>gs_tips = [1], gs_layer = 0, gs_total = 1, gs_mainHeight = 0\<rparr> 10 = Inr (Some [2, 3])"
    by code_simp
  have k: "map (block_key two_tips) [2, 3] = [(1, 1), (2, 2)]" by code_simp
  have t: "tips two_tips \<noteq> None" by code_simp
  have m: "inst_GetMainChainTip chain_strategy two_tips \<noteq> None" by code_simp
  have l: "length [blockData 1 [], blockData 2 [1], blockData 3 [1]] < (2 :: nat) ^ 64" by simp
  note th = LocateBlocks_bounded_sorted [OF chain_keeps_skeleton new_dag_is_new l two_tips_def t m,
      THEN conjunct2, rule_format, OF r]
  show ?thesis using r k th by simp
qed

subsection \<open>The early return of the locator\<close>

text \<open>
  C6, as the code has it. The test is \<open>gs.IsExcellent(bd.GetGraphState())\<close>: when the
  state of the peer strictly dominates the framework's own state, \<open>LocateBlocks\<close>
  returns nil. When it does not (the two states are equal, neither dominates, or the own
  state dominates), \<open>LocateBlocks\<close> never returns nil: it makes no early return and
  does what it would do with no test at all, the traversal from the tips. On a DAG built
  by fewer than \<open>2 ^ 64\<close> calls of \<open>AddBlock\<close> on a new one, with a tip, the traversal
  returns a list from some bound on the rounds of its queue loop onwards. In the two-tips
  fixture a peer with a higher main chain gets nil, and a peer with the tips 2 and 9 and
  otherwise the own state, which neither dominates nor is dominated, gets the hashes 2
  and 3.
\<close>

theorem LocateBlocks_peer_better:
  assumes "GetGraphState inst bd = Inr own"
  shows "(isExcellent gs own \<longrightarrow> LocateBlocks isExcellent inst n bd gs maxHashes = Inr None) \<and>
     (\<not> isExcellent gs own \<longrightarrow>
        LocateBlocks isExcellent inst n bd gs maxHashes \<noteq> Inr None \<and>
        LocateBlocks isExcellent inst n bd gs maxHashes
          = LocateBlocks (\<lambda>peer own. False) inst n bd gs maxHashes) \<and>
     (\<not> isExcellent gs own \<and> keeps_skeleton inst \<and> is_new bd0 \<and> length ds < 2 ^ 64 \<and>
      bd = AddBlocks inst bd0 ds \<and> tips bd \<noteq> None \<longrightarrow>
        (\<exists>N hs. \<forall>m \<ge> N. LocateBlocks isExcellent inst m bd gs maxHashes = Inr (Some hs)))"
proof (intro conjI impI)
  assume "isExcellent gs own"
  with assms show "LocateBlocks isExcellent inst n bd gs maxHashes = Inr None"
    by (simp add: LocateBlocks_def)
next
  assume "\<not> isExcellent gs own"
  with assms show "LocateBlocks isExcellent inst n bd gs maxHashes \<noteq> Inr None"
    by (auto simp: LocateBlocks_def split: option.splits sum.splits prod.splits)
next
  assume "\<not> isExcellent gs own"
  with assms show "LocateBlocks isExcellent inst n bd gs maxHashes
      = LocateBlocks (\<lambda>peer own. False) inst n bd gs maxHashes"
    by (simp add: LocateBlocks_def)
next
  assume a: "\<not> isExcellent gs own \<and> keeps_skeleton inst \<and> is_new bd0 \<and> length ds < 2 ^ 64 \<and>
      bd = AddBlocks inst bd0 ds \<and> tips bd \<noteq> None"
  from a have ne: "\<not> isExcellent gs own" and ks: "keeps_skeleton inst" and nw: "is_new bd0"
    and ln: "length ds < 2 ^ 64" and bd: "bd = AddBlocks inst bd0 ds" and tp: "tips bd \<noteq> None"
    by blast+
  have inv: "dag_inv bd" using new_run_inv [OF ks nw ln] bd by simp
  from assms have mt: "inst_GetMainChainTip inst bd \<noteq> None"
    by (auto simp: GetGraphState_def split: option.splits sum.splits if_splits)
  from LocateBlocks_total [OF inv tp mt, of isExcellent gs maxHashes] obtain N r where
    r: "\<forall>m \<ge> N. LocateBlocks isExcellent inst m bd gs maxHashes = Inr r" by blast
  then have "LocateBlocks isExcellent inst N bd gs maxHashes = Inr r" by simp
  moreover have "LocateBlocks isExcellent inst N bd gs maxHashes \<noteq> Inr None"
    using assms ne by (auto simp: LocateBlocks_def split: option.splits sum.splits prod.splits)
  ultimately obtain hs where "r = Some hs" by (cases r) auto
  with r show "\<exists>N hs. \<forall>m \<ge> N. LocateBlocks isExcellent inst m bd gs maxHashes = Inr (Some hs)"
    by blast
qed

theorem LocateBlocks_peer_better_witness:
  "GetGraphState chain_strategy two_tips = Inr \<lparr>gs_tips = [2, 3], gs_layer = 1, gs_total = 3, gs_mainHeight = 1\<rparr> \<and>
   IsExcellent \<lparr>gs_tips = [7], gs_layer = 4, gs_total = 9, gs_mainHeight = 4\<rparr>
     \<lparr>gs_tips = [2, 3], gs_layer = 1, gs_total = 3, gs_mainHeight = 1\<rparr> \<and>
   LocateBlocks IsExcellent chain_strategy 10 two_tips \<lparr>gs_tips = [7], gs_layer = 4, gs_total = 9, gs_mainHeight = 4\<rparr> 10 = Inr None \<and>
   \<not> IsExcellent \<lparr>gs_tips = [2, 9], gs_layer = 1, gs_total = 3, gs_mainHeight = 1\<rparr>
     \<lparr>gs_tips = [2, 3], gs_layer = 1, gs_total = 3, gs_mainHeight = 1\<rparr> \<and>
   \<not> IsExcellent \<lparr>gs_tips = [2, 3], gs_layer = 1, gs_total = 3, gs_mainHeight = 1\<rparr>
     \<lparr>gs_tips = [2, 9], gs_layer = 1, gs_total = 3, gs_mainHeight = 1\<rparr> \<and>
   LocateBlocks IsExcellent chain_strategy 10 two_tips \<lparr>gs_tips = [2, 9], gs_layer = 1, gs_total = 3, gs_mainHeight = 1\<rparr> 10
     = Inr (Some [2, 3]) \<and>
   LocateBlocks IsExcellent chain_strategy 10 two_tips \<lparr>gs_tips = [2, 9], gs_layer = 1, gs_total = 3, gs_mainHeight = 1\<rparr> 10
     \<noteq> Inr None \<and>
   (\<exists>N hs. \<forall>m \<ge> N. LocateBlocks IsExcellent chain_strategy m two_tips
       \<lparr>gs_tips = [2, 9], gs_layer = 1, gs_total = 3, gs_mainHeight = 1\<rparr> 10 = Inr (Some hs))"
proof -
  have a: "GetGraphState chain_strategy two_tips = Inr \<lparr>gs_tips = [2, 3], gs_layer = 1, gs_total = 3, gs_mainHeight = 1\<rparr>"
    by code_simp
  have b: "IsExcellent \<lparr>gs_tips = [7], gs_layer = 4, gs_total = 9, gs_mainHeight = 4\<rparr>
     \<lparr>gs_tips = [2, 3], gs_layer = 1, gs_total = 3, gs_mainHeight = 1\<rparr>"
    by code_simp
  have c: "\<not> IsExcellent \<lparr>gs_tips = [2, 9], gs_layer = 1, gs_total = 3, gs_mainHeight = 1\<rparr>
     \<lparr>gs_tips = [2, 3], gs_layer = 1, gs_total = 3, gs_mainHeight = 1\<rparr>"
    by code_simp
  have d: "\<not> IsExcellent \<lparr>gs_tips = [2, 3], gs_layer = 1, gs_total = 3, gs_mainHeight = 1\<rparr>
     \<lparr>gs_tips = [2, 9], gs_layer = 1, gs_total = 3, gs_mainHeight = 1\<rparr>"
    by code_simp
  have e: "LocateBlocks IsExcellent chain_strategy 10 two_tips \<lparr>gs_tips = [2, 9], gs_layer = 1, gs_total = 3, gs_mainHeight = 1\<rparr> 10
     = Inr (Some [2, 3])"
    by code_simp
  have t: "tips two_tips \<noteq> None" by code_simp
  have l: "length [blockData 1 [], blockData 2 [1], blockData 3 [1]] < (2 :: nat) ^ 64" by simp
  note th1 = LocateBlocks_peer_better [OF a, of IsExcellent
      "\<lparr>gs_tips = [7], gs_layer = 4, gs_total = 9, gs_mainHeight = 4\<rparr>" 10 10, THEN conjunct1, rule_format, OF b]
  note th2 = LocateBlocks_peer_better [OF a, of IsExcellent
      "\<lparr>gs_tips = [2, 9], gs_layer = 1, gs_total = 3, gs_mainHeight = 1\<rparr>" 10 10 new_dag
      "[blockData 1 [], blockData 2 [1], blockData 3 [1]]"]
  note th3 = th2 [THEN conjunct2, THEN conjunct1, rule_format, OF c, THEN conjunct1]
  have h: "\<not> IsExcellent \<lparr>gs_tips = [2, 9], gs_layer = 1, gs_total = 3, gs_mainHeight = 1\<rparr>
        \<lparr>gs_tips = [2, 3], gs_layer = 1, gs_total = 3, gs_mainHeight = 1\<rparr> \<and>
      keeps_skeleton chain_strategy \<and> is_new new_dag \<and>
      length [blockData 1 [], blockData 2 [1], blockData 3 [1]] < 2 ^ 64 \<and>
      two_tips = AddBlocks chain_strategy new_dag [blockData 1 [], blockData 2 [1], blockData 3 [1]] \<and>
      tips two_tips \<noteq> None"
    using c chain_keeps_skeleton new_dag_is_new l two_tips_def t by blast
  note th4 = th2 [THEN conjunct2, THEN conjunct2, rule_format, OF h]
  show ?thesis using a b c d e th1 th3 th4 by blast
qed

text \<open>
  C6, as the spec has it, fails: the peer's state is the framework's own state, so the
  own state does not strictly dominate it, and \<open>LocateBlocks\<close> returns the two tips.
\<close>

theorem LocateBlocks_equal_states_counterexample:
  "GetGraphState chain_strategy two_tips = Inr \<lparr>gs_tips = [2, 3], gs_layer = 1, gs_total = 3, gs_mainHeight = 1\<rparr> \<and>
   \<not> IsExcellent \<lparr>gs_tips = [2, 3], gs_layer = 1, gs_total = 3, gs_mainHeight = 1\<rparr>
     \<lparr>gs_tips = [2, 3], gs_layer = 1, gs_total = 3, gs_mainHeight = 1\<rparr> \<and>
   LocateBlocks IsExcellent chain_strategy 10 two_tips \<lparr>gs_tips = [2, 3], gs_layer = 1, gs_total = 3, gs_mainHeight = 1\<rparr> 10
     = Inr (Some [2, 3])"
  by code_simp

subsection \<open>Future set and anticone are exact\<close>

lemma children_of_dom: "c \<in> children_of bd p \<Longrightarrow> p \<in> dom (blocks bd)"
  by (auto simp: children_of_def split: option.splits)

lemma parents_of_dom: "p \<in> parents_of bd c \<Longrightarrow> c \<in> dom (blocks bd)"
  by (auto simp: parents_of_def split: option.splits)

lemma dag_inv_links: "dag_inv bd \<Longrightarrow> c \<in> children_of bd p \<longleftrightarrow> p \<in> parents_of bd c"
  unfolding dag_inv_def by blast

lemma dag_inv_children_dom:
  assumes "dag_inv bd" and "c \<in> children_of bd p"
  shows "c \<in> dom (blocks bd)"
  using assms dag_inv_links parents_of_dom by blast

lemma parent_edges_converse: "dag_inv bd \<Longrightarrow> parent_edges bd = (child_edges bd)\<inverse>"
  by (auto simp: parent_edges_def child_edges_def dag_inv_links)

lemma past_set_child_edges: "dag_inv bd \<Longrightarrow> past_set bd h = {x. (x, h) \<in> (child_edges bd)\<^sup>+}"
  by (simp add: past_set_def parent_edges_converse trancl_converse)

lemma child_edge_layer:
  assumes inv: "dag_inv bd" and e: "(p, c) \<in> child_edges bd"
  shows "layer_of bd p < layer_of bd c"
proof -
  from e have pc: "p \<in> parents_of bd c" using inv by (simp add: child_edges_def dag_inv_links)
  then obtain cb where cb: "blocks bd c = Some cb" using parents_of_dom by blast
  from pc cb have pn: "b_parents cb \<noteq> None" by (auto simp: parents_of_def split: option.splits)
  from inv cb have "if c = genesis bd then b_parents cb = None \<and> b_layer cb = 0
          else (\<exists>ps. b_parents cb = Some ps \<and> ps \<noteq> []) \<and>
               unat (b_layer cb) = Suc (Max (layer_of bd ` parents_of bd c))"
    unfolding dag_inv_def by blast
  with pn have lay: "unat (b_layer cb) = Suc (Max (layer_of bd ` parents_of bd c))"
    by (auto split: if_splits)
  have "finite (parents_of bd c)" using cb by (auto simp: parents_of_def split: option.splits)
  then have "layer_of bd p \<le> Max (layer_of bd ` parents_of bd c)" using pc by (intro Max_ge) auto
  then show ?thesis using lay cb by (simp add: layer_of_def)
qed

lemma child_path_layer:
  assumes inv: "dag_inv bd" and e: "(x, y) \<in> (child_edges bd)\<^sup>+"
  shows "layer_of bd x < layer_of bd y"
  using e
proof (induction rule: trancl_induct)
  case (base y)
  then show ?case by (rule child_edge_layer [OF inv])
next
  case (step y z)
  from child_edge_layer [OF inv step(2)] step(3) show ?case by simp
qed

lemma child_edges_acyclic: "dag_inv bd \<Longrightarrow> (x, x) \<notin> (child_edges bd)\<^sup>+"
  using child_path_layer by fastforce

lemma child_path_dom:
  assumes inv: "dag_inv bd" and e: "(x, y) \<in> (child_edges bd)\<^sup>+"
  shows "x \<in> dom (blocks bd)" and "y \<in> dom (blocks bd)"
proof -
  from e show "x \<in> dom (blocks bd)"
    by (induction rule: trancl_induct) (auto simp: child_edges_def dest: children_of_dom)
  from e show "y \<in> dom (blocks bd)"
    by (induction rule: trancl_induct) (auto simp: child_edges_def dest: dag_inv_children_dom [OF inv])
qed

lemma layer_lt_card:
  assumes inv: "dag_inv bd" and "blocks bd x = Some b"
  shows "layer_of bd x < card (dom (blocks bd))"
proof -
  from inv assms(2) have "b_id b < blockTotal bd" "b_layer b \<le> b_id b" 
    and "unat (blockTotal bd) = card (dom (blocks bd))"
    unfolding dag_inv_def by blast+
  then show ?thesis using assms(2) by (simp add: layer_of_def word_less_nat_alt word_le_nat_alt)
qed

text \<open>Every block descends from genesis.\<close>

lemma genesis_ancestor:
  assumes inv: "dag_inv bd"
  shows "x \<in> dom (blocks bd) \<Longrightarrow> x = genesis bd \<or> (genesis bd, x) \<in> (child_edges bd)\<^sup>+"
proof (induction "layer_of bd x" arbitrary: x rule: less_induct)
  case less
  show ?case
  proof (cases "x = genesis bd")
    case True
    then show ?thesis by simp
  next
    case False
    from less.prems obtain xb where xb: "blocks bd x = Some xb" by auto
    with inv False obtain ps where ps: "b_parents xb = Some ps" "ps \<noteq> []"
      unfolding dag_inv_def by (metis (no_types, lifting))
    then obtain p where p: "p \<in> set ps" by (cases ps) auto
    then have pp: "p \<in> parents_of bd x" using xb ps by (simp add: parents_of_def)
    then have e: "(p, x) \<in> child_edges bd" using inv by (simp add: child_edges_def dag_inv_links)
    then have pd: "p \<in> dom (blocks bd)" by (auto simp: child_edges_def dest: children_of_dom)
    from less.hyps [OF child_edge_layer [OF inv e] pd]
    have "(genesis bd, x) \<in> (child_edges bd)\<^sup>+"
    proof
      assume "p = genesis bd"
      with e show ?thesis by auto
    next
      assume "(genesis bd, p) \<in> (child_edges bd)\<^sup>+"
      with e show ?thesis by (auto intro: trancl_into_trancl)
    qed
    then show ?thesis by simp
  qed
qed

lemma future_step_refl: "future_step bd fs fs {}"
  by (simp add: future_step_def)

lemma children_reach: "(child_edges bd)\<^sup>* `` children_of bd k \<subseteq> (child_edges bd)\<^sup>* `` {k}"
proof
  fix x assume "x \<in> (child_edges bd)\<^sup>* `` children_of bd k"
  then obtain c where "c \<in> children_of bd k" "(c, x) \<in> (child_edges bd)\<^sup>*" by auto
  then have "(k, x) \<in> (child_edges bd)\<^sup>*"
    by (auto simp: child_edges_def intro: converse_rtrancl_into_rtrancl)
  then show "x \<in> (child_edges bd)\<^sup>* `` {k}" by auto
qed

lemma GetFutureSet_loop_correct:
  fixes bd :: "'i BlockDAG"
  assumes inv: "dag_inv bd"
    and P: "\<And>fs k kb. blocks bd k = Some kb \<Longrightarrow> card (dom (blocks bd) - set fs) < n \<Longrightarrow>
              \<exists>fs1. GetFutureSet n bd fs (Some kb) = Inr fs1 \<and> future_step bd fs fs1 (children_of bd k)"
  shows "set ks \<subseteq> dom (blocks bd) \<Longrightarrow> card (dom (blocks bd) - set fs) \<le> n \<Longrightarrow>
     \<exists>fs1. GetFutureSet_loop n bd fs ks = Inr fs1 \<and> future_step bd fs fs1 (set ks)"
proof (induction ks arbitrary: fs)
  case Nil
  then show ?case by (simp add: future_step_refl)
next
  case (Cons k ks)
  from inv have fin: "finite (dom (blocks bd))" unfolding dag_inv_def by blast
  have ksd: "set ks \<subseteq> dom (blocks bd)" using Cons.prems(1) by auto
  show ?case
  proof (cases "k \<in> set fs")
    case True
    from Cons.IH [OF ksd Cons.prems(2)] obtain fs1 where
      r: "GetFutureSet_loop n bd fs ks = Inr fs1" and g: "future_step bd fs fs1 (set ks)" by blast
    have "future_step bd fs fs1 (set (k # ks))"
      using g True unfolding future_step_def by auto
    then show ?thesis using r True by (auto simp: HashSet_Has_def)
  next
    case False
    from Cons.prems(1) obtain kb where kb: "blocks bd k = Some kb" by auto
    define fsk where "fsk = HashSet_Add fs k"
    have sk: "set fsk = insert k (set fs)" by (simp add: fsk_def)
    have kin: "k \<in> dom (blocks bd) - set fs" using kb False by auto
    have "dom (blocks bd) - set fsk = (dom (blocks bd) - set fs) - {k}" using sk by auto
    then have "card (dom (blocks bd) - set fsk) = card (dom (blocks bd) - set fs) - 1"
      using kin fin by simp
    moreover have "0 < card (dom (blocks bd) - set fs)" using kin fin by (auto simp: card_gt_0_iff)
    ultimately have c1: "card (dom (blocks bd) - set fsk) < n" using Cons.prems(2) by linarith
    from P [OF kb c1] obtain fs2 where
      r2: "GetFutureSet n bd fsk (Some kb) = Inr fs2" and g2: "future_step bd fsk fs2 (children_of bd k)"
      by blast
    have "dom (blocks bd) - set fs2 \<subseteq> dom (blocks bd) - set fs"
      using g2 sk unfolding future_step_def by auto
    then have "card (dom (blocks bd) - set fs2) \<le> card (dom (blocks bd) - set fs)"
      using fin by (intro card_mono) auto
    then have c2: "card (dom (blocks bd) - set fs2) \<le> n" using Cons.prems(2) by simp
    from Cons.IH [OF ksd c2] obtain fs3 where
      r3: "GetFutureSet_loop n bd fs2 ks = Inr fs3" and g3: "future_step bd fs2 fs3 (set ks)" by blast
    have run: "GetFutureSet_loop n bd fs (k # ks) = Inr fs3"
      using False kb r2 r3 by (simp add: HashSet_Has_def fsk_def GetBlock_def)
    have a: "set fs \<subseteq> set fs3" using g2 g3 sk unfolding future_step_def by auto
    have b: "set fs3 \<subseteq> set fs \<union> (child_edges bd)\<^sup>* `` set (k # ks)"
    proof
      fix x assume "x \<in> set fs3"
      with g3 have "x \<in> set fs2 \<or> x \<in> (child_edges bd)\<^sup>* `` set ks" unfolding future_step_def by auto
      then show "x \<in> set fs \<union> (child_edges bd)\<^sup>* `` set (k # ks)"
      proof
        assume "x \<in> set fs2"
        with g2 have "x \<in> set fsk \<or> x \<in> (child_edges bd)\<^sup>* `` children_of bd k"
          unfolding future_step_def by auto
        then show ?thesis using sk children_reach [of bd k] by auto
      next
        assume "x \<in> (child_edges bd)\<^sup>* `` set ks"
        then show ?thesis by auto
      qed
    qed
    have c: "set (k # ks) \<subseteq> set fs3" using g2 g3 sk unfolding future_step_def by auto
    have d: "\<forall>x \<in> set fs3 - set fs. children_of bd x \<subseteq> set fs3"
    proof
      fix x assume x: "x \<in> set fs3 - set fs"
      show "children_of bd x \<subseteq> set fs3"
      proof (cases "x \<in> set fs2")
        case False
        with x g3 show ?thesis unfolding future_step_def by auto
      next
        case True
        have s23: "set fs2 \<subseteq> set fs3" using g3 unfolding future_step_def by auto
        show ?thesis
        proof (cases "x = k")
          case True
          with g2 s23 show ?thesis unfolding future_step_def by auto
        next
          case False
          with True x sk have "x \<in> set fs2 - set fsk" by auto
          with g2 s23 show ?thesis unfolding future_step_def by blast
        qed
      qed
    qed
    have e: "distinct fs \<longrightarrow> distinct fs3" using g2 g3 unfolding future_step_def by (simp add: fsk_def)
    show ?thesis using run a b c d e unfolding future_step_def by blast
  qed
qed

lemma GetFutureSet_correct:
  fixes bd :: "'i BlockDAG"
  assumes inv: "dag_inv bd"
  shows "blocks bd k = Some kb \<Longrightarrow> card (dom (blocks bd) - set fs) < n \<Longrightarrow>
     \<exists>fs1. GetFutureSet n bd fs (Some kb) = Inr fs1 \<and> future_step bd fs fs1 (children_of bd k)"
proof (induction n arbitrary: fs k kb)
  case 0
  then show ?case by simp
next
  case (Suc n)
  show ?case
  proof (cases "b_children kb")
    case None
    then have "children_of bd k = {}" using Suc.prems(1) by (simp add: children_of_def)
    then show ?thesis using None by (simp add: future_step_refl)
  next
    case (Some cs)
    have ck: "children_of bd k = set cs" using Some Suc.prems(1) by (simp add: children_of_def)
    show ?thesis
    proof (cases "cs = []")
      case True
      then show ?thesis using Some ck by (simp add: future_step_refl HashSet_IsEmpty_def)
    next
      case False
      have sub: "set cs \<subseteq> dom (blocks bd)"
        using ck dag_inv_children_dom [OF inv, of _ k] by auto
      have le: "card (dom (blocks bd) - set fs) \<le> n" using Suc.prems(2) by simp
      from GetFutureSet_loop_correct [OF inv Suc.IH sub le]
      show ?thesis using Some False ck by (simp add: HashSet_IsEmpty_def)
    qed
  qed
qed

lemma future_set_reach: "future_set bd h = (child_edges bd)\<^sup>* `` children_of bd h"
proof -
  have "\<And>x. (h, x) \<in> (child_edges bd)\<^sup>+ \<longleftrightarrow> (\<exists>c. (h, c) \<in> child_edges bd \<and> (c, x) \<in> (child_edges bd)\<^sup>*)"
    by (metis tranclD rtrancl_into_trancl2)
  then show ?thesis by (auto simp: future_set_def child_edges_def)
qed

lemma GetFutureSet_future_set:
  fixes bd :: "'i BlockDAG"
  assumes inv: "dag_inv bd" and b: "blocks bd h = Some b" and n: "card (dom (blocks bd)) < n"
  shows "\<exists>fs. GetFutureSet n bd NewHashSet (Some b) = Inr fs \<and> set fs = future_set bd h \<and> distinct fs"
proof -
  have "card (dom (blocks bd) - set NewHashSet) < n" using n by (simp add: NewHashSet_def)
  from GetFutureSet_correct [OF inv b this] obtain fs where
    r: "GetFutureSet n bd NewHashSet (Some b) = Inr fs" and g: "future_step bd NewHashSet fs (children_of bd h)"
    by blast
  from g have sub: "set fs \<subseteq> future_set bd h" and ch: "children_of bd h \<subseteq> set fs"
    and cl: "\<forall>x \<in> set fs. children_of bd x \<subseteq> set fs" and d: "distinct fs"
    unfolding future_step_def by (auto simp: NewHashSet_def future_set_reach)
  have "future_set bd h \<subseteq> set fs"
  proof
    fix x assume "x \<in> future_set bd h"
    then obtain c where c: "c \<in> children_of bd h" "(c, x) \<in> (child_edges bd)\<^sup>*"
      by (auto simp: future_set_reach)
    from c(2) show "x \<in> set fs"
    proof (induction rule: rtrancl_induct)
      case base
      then show ?case using c(1) ch by auto
    next
      case (step y z)
      then show ?case using cl by (auto simp: child_edges_def)
    qed
  qed
  with sub r d show ?thesis by blast
qed

lemma isVirtualTip_iff:
  "isVirtualTip b fs ac cs \<longleftrightarrow> (\<forall>k \<in> set cs. k \<noteq> b_hash b \<and> (k \<in> set fs \<or> k \<in> set ac))"
  by (induction cs) (auto simp: HashSet_Has_def)

lemma needRecursion_iff:
  assumes "blocks bd x = Some node"
  shows "(case b_children node of
            None \<Rightarrow> True
          | Some cs \<Rightarrow> if length cs = 0 then True else isVirtualTip b fs ac cs) \<longleftrightarrow>
         (\<forall>k \<in> children_of bd x. k \<noteq> b_hash b \<and> (k \<in> set fs \<or> k \<in> set ac))"
  using assms by (auto simp: children_of_def isVirtualTip_iff split: option.splits)

lemma recAnticone_loop_correct:
  fixes bd :: "'i BlockDAG"
  assumes R: "\<And>x ac V W. layer_of bd x < n \<Longrightarrow> x \<in> dom (blocks bd) \<Longrightarrow>
                anticone_state bd h (set fs) ac V \<Longrightarrow> anticone_pending bd h V (insert x W) \<Longrightarrow>
                \<exists>ac1 V1. recAnticone n bd b fs ac x = Inr ac1 \<and> anticone_state bd h (set fs) ac1 V1 \<and>
                   V \<subseteq> V1 \<and> anticone_pending bd h V1 W"
  shows "\<forall>p \<in> set ps. layer_of bd p < n \<and> p \<in> dom (blocks bd) \<Longrightarrow>
     anticone_state bd h (set fs) ac V \<Longrightarrow> anticone_pending bd h V (W \<union> set ps) \<Longrightarrow>
     \<exists>ac1 V1. recAnticone_loop n bd b fs ac ps = Inr ac1 \<and> anticone_state bd h (set fs) ac1 V1 \<and>
        V \<subseteq> V1 \<and> anticone_pending bd h V1 W"
proof (induction ps arbitrary: ac V)
  case Nil
  then show ?case by auto
next
  case (Cons p ps)
  have pp: "layer_of bd p < n" "p \<in> dom (blocks bd)" using Cons.prems(1) by auto
  have pend: "anticone_pending bd h V (insert p (W \<union> set ps))" using Cons.prems(3) by simp
  from R [OF pp Cons.prems(2) pend] obtain ac1 V1 where
    r1: "recAnticone n bd b fs ac p = Inr ac1" and s1: "anticone_state bd h (set fs) ac1 V1"
    and v1: "V \<subseteq> V1" and p1: "anticone_pending bd h V1 (W \<union> set ps)"
    by blast
  have rest: "\<forall>p \<in> set ps. layer_of bd p < n \<and> p \<in> dom (blocks bd)" using Cons.prems(1) by auto
  from Cons.IH [OF rest s1 p1] obtain ac2 V2 where
    r2: "recAnticone_loop n bd b fs ac1 ps = Inr ac2" and s2: "anticone_state bd h (set fs) ac2 V2"
    and v2: "V1 \<subseteq> V2" and p2: "anticone_pending bd h V2 W"
    by blast
  show ?case using r1 r2 s2 v1 v2 p2 by auto
qed

lemma recAnticone_correct:
  fixes bd :: "'i BlockDAG"
  assumes inv: "dag_inv bd" and b: "blocks bd h = Some b" and F: "set fs = future_set bd h"
  shows "layer_of bd x < n \<Longrightarrow> x \<in> dom (blocks bd) \<Longrightarrow>
     anticone_state bd h (set fs) ac V \<Longrightarrow> anticone_pending bd h V (insert x W) \<Longrightarrow>
     \<exists>ac1 V1. recAnticone n bd b fs ac x = Inr ac1 \<and> anticone_state bd h (set fs) ac1 V1 \<and>
        V \<subseteq> V1 \<and> anticone_pending bd h V1 W"
proof (induction n arbitrary: x ac V W)
  case 0
  then show ?case by simp
next
  case (Suc n)
  from inv b have bh: "b_hash b = h" unfolding dag_inv_def by blast
  note st = Suc.prems(3) [unfolded anticone_state_def]
  show ?case
  proof (cases "x = h")
    case True
    have "anticone_pending bd h V W" using Suc.prems(4) True unfolding anticone_pending_def by auto
    then show ?thesis using True bh Suc.prems(3) by auto
  next
    case xh: False
    from Suc.prems(2) obtain node where node: "blocks bd x = Some node" by auto
    define nr where "nr = (case b_children node of
            None \<Rightarrow> True
          | Some cs \<Rightarrow> if length cs = 0 then True else isVirtualTip b fs ac cs)"
    have nr_iff: "nr \<longleftrightarrow> (\<forall>k \<in> children_of bd x. k \<noteq> h \<and> (k \<in> set fs \<or> k \<in> set ac))"
      unfolding nr_def using needRecursion_iff [OF node] bh by simp
    show ?thesis
    proof (cases nr)
      case False
      have "\<not> children_of bd x \<subseteq> V"
      proof
        assume sub: "children_of bd x \<subseteq> V"
        have "\<forall>k \<in> children_of bd x. k \<noteq> h \<and> (k \<in> set fs \<or> k \<in> set ac)"
        proof
          fix k assume "k \<in> children_of bd x"
          with sub have "k \<in> V" by auto
          with st show "k \<noteq> h \<and> (k \<in> set fs \<or> k \<in> set ac)" by auto
        qed
        with False nr_iff show False by simp
      qed
      then have "anticone_pending bd h V W" using Suc.prems(4) unfolding anticone_pending_def by auto
      moreover have "recAnticone (Suc n) bd b fs ac x = Inr ac"
        using xh bh node False by (simp add: GetBlock_def nr_def)
      ultimately show ?thesis using Suc.prems(3) by auto
    next
      case True
      have notpast: "(x, h) \<notin> (child_edges bd)\<^sup>+"
      proof
        assume "(x, h) \<in> (child_edges bd)\<^sup>+"
        then obtain c where c: "(x, c) \<in> child_edges bd" "(c, h) \<in> (child_edges bd)\<^sup>*"
          by (metis tranclD)
        then have cx: "c \<in> children_of bd x" by (simp add: child_edges_def)
        with True nr_iff have ch: "c \<noteq> h" and cm: "c \<in> set fs \<or> c \<in> set ac" by auto
        from c(2) ch have cp: "(c, h) \<in> (child_edges bd)\<^sup>+" by (metis rtranclD)
        from cm show False
        proof
          assume "c \<in> set fs"
          then have "(h, c) \<in> (child_edges bd)\<^sup>+" using F by (simp add: future_set_def)
          with cp have "(h, h) \<in> (child_edges bd)\<^sup>+" by (auto intro: trancl_trans)
          with child_edges_acyclic [OF inv] show False by blast
        next
          assume "c \<in> set ac"
          with st have "c \<in> V" by auto
          with st cp show False by auto
        qed
      qed
      have hd: "h \<in> dom (blocks bd)" using b by auto
      have xg: "x \<noteq> genesis bd"
      proof
        assume "x = genesis bd"
        with genesis_ancestor [OF inv hd] xh notpast show False by auto
      qed
      from inv node xg obtain ps where ps: "b_parents node = Some ps"
        unfolding dag_inv_def by (metis (no_types, lifting))
      have pk: "parents_of bd x = set ps" using node ps by (simp add: parents_of_def)
      define ac1 where "ac1 = (if \<not> HashSet_Has fs x then HashSet_Add ac x else ac)"
      define V1 where "V1 = insert x V"
      have step: "recAnticone (Suc n) bd b fs ac x = recAnticone_loop n bd b fs ac1 ps"
        using xh bh node True ps by (simp add: GetBlock_def nr_def ac1_def)
      have s1: "anticone_state bd h (set fs) ac1 V1"
        unfolding anticone_state_def using st xh notpast Suc.prems(2)
        by (auto simp: ac1_def V1_def HashSet_Has_def)
      have p1: "anticone_pending bd h V1 (W \<union> set ps)"
        unfolding anticone_pending_def
      proof (intro ballI impI)
        fix p assume pd: "p \<in> dom (blocks bd)" and pc: "p \<noteq> h \<and> p \<notin> V1 \<and> children_of bd p \<subseteq> V1"
        show "p \<in> W \<union> set ps"
        proof (cases "children_of bd p \<subseteq> V")
          case True
          with pd pc Suc.prems(4) have "p \<in> insert x W"
            unfolding anticone_pending_def by (auto simp: V1_def)
          with pc show ?thesis by (auto simp: V1_def)
        next
          case False
          with pc have "x \<in> children_of bd p" by (auto simp: V1_def)
          then have "p \<in> parents_of bd x" using inv by (simp add: dag_inv_links)
          then show ?thesis using pk by simp
        qed
      qed
      have pl: "\<forall>p \<in> set ps. layer_of bd p < n \<and> p \<in> dom (blocks bd)"
      proof
        fix p assume "p \<in> set ps"
        then have pp: "p \<in> parents_of bd x" using pk by simp
        then have e: "(p, x) \<in> child_edges bd" using inv by (simp add: child_edges_def dag_inv_links)
        from child_edge_layer [OF inv e] Suc.prems(1) have "layer_of bd p < n" by simp
        moreover have "p \<in> dom (blocks bd)" using e by (auto simp: child_edges_def dest: children_of_dom)
        ultimately show "layer_of bd p < n \<and> p \<in> dom (blocks bd)" by simp
      qed
      from recAnticone_loop_correct [of bd n h fs b ps ac1 V1 W, OF Suc.IH pl s1 p1]
      obtain ac2 V2 where
        r2: "recAnticone_loop n bd b fs ac1 ps = Inr ac2" and s2: "anticone_state bd h (set fs) ac2 V2"
        and v2: "V1 \<subseteq> V2" and p2: "anticone_pending bd h V2 W"
        by blast
      show ?thesis using step r2 s2 v2 p2 by (auto simp: V1_def)
    qed
  qed
qed

lemma GetAnticone_correct:
  fixes bd :: "'i BlockDAG"
  assumes inv: "dag_inv bd" and b: "blocks bd h = Some b" and n: "card (dom (blocks bd)) < n"
  shows "\<exists>fs ac. GetFutureSet n bd NewHashSet (Some b) = Inr fs \<and> set fs = future_set bd h \<and>
     GetAnticone n bd b None = Inr ac \<and> distinct ac \<and>
     set ac = dom (blocks bd) - {h} - future_set bd h - past_set bd h"
proof -
  from GetFutureSet_future_set [OF inv b n] obtain fs where
    fr: "GetFutureSet n bd NewHashSet (Some b) = Inr fs" and F: "set fs = future_set bd h"
    by blast
  have ne: "blocks bd \<noteq> Map.empty" using b by auto
  from inv ne obtain ts where ts: "tips bd = Some ts"
    and tset: "set ts = {x \<in> dom (blocks bd). children_of bd x = {}}"
    unfolding dag_inv_def by (cases "tips bd") auto
  have tl: "\<forall>p \<in> set ts. layer_of bd p < n \<and> p \<in> dom (blocks bd)"
  proof
    fix p assume "p \<in> set ts"
    with tset obtain pb where pb: "blocks bd p = Some pb" by auto
    from layer_lt_card [OF inv pb] n pb show "layer_of bd p < n \<and> p \<in> dom (blocks bd)" by auto
  qed
  have s0: "anticone_state bd h (set fs) NewHashSet {}"
    by (simp add: anticone_state_def NewHashSet_def)
  have p0: "anticone_pending bd h {} ({} \<union> set ts)"
    unfolding anticone_pending_def using tset by auto
  from recAnticone_loop_correct [of bd n h fs b ts NewHashSet "{}" "{}",
      OF recAnticone_correct [OF inv b F] tl s0 p0]
  obtain ac V where
    lr: "recAnticone_loop n bd b fs NewHashSet ts = Inr ac" and st: "anticone_state bd h (set fs) ac V"
    and pe: "anticone_pending bd h V {}"
    by blast
  have run: "GetAnticone n bd b None = Inr ac" using fr ts lr by (simp add: GetAnticone_def)
  note st' = st [unfolded anticone_state_def]
  have past: "past_set bd h = {x. (x, h) \<in> (child_edges bd)\<^sup>+}" by (rule past_set_child_edges [OF inv])
  have all: "\<And>p. p \<in> dom (blocks bd) \<Longrightarrow> p \<noteq> h \<Longrightarrow> p \<notin> V \<Longrightarrow> (p, h) \<in> (child_edges bd)\<^sup>+"
  proof -
    fix p
    show "p \<in> dom (blocks bd) \<Longrightarrow> p \<noteq> h \<Longrightarrow> p \<notin> V \<Longrightarrow> (p, h) \<in> (child_edges bd)\<^sup>+"
    proof (induction "card (dom (blocks bd)) - layer_of bd p" arbitrary: p rule: less_induct)
      case less
      from pe less.prems have "\<not> children_of bd p \<subseteq> V" unfolding anticone_pending_def by auto
      then obtain c where c: "c \<in> children_of bd p" "c \<notin> V" by auto
      then have e: "(p, c) \<in> child_edges bd" by (simp add: child_edges_def)
      show ?case
      proof (cases "c = h")
        case True
        with e show ?thesis by auto
      next
        case False
        have cd: "c \<in> dom (blocks bd)" by (rule dag_inv_children_dom [OF inv c(1)])
        then obtain cb where cb: "blocks bd c = Some cb" by auto
        have "layer_of bd p < layer_of bd c" by (rule child_edge_layer [OF inv e])
        moreover have "layer_of bd c < card (dom (blocks bd))" by (rule layer_lt_card [OF inv cb])
        ultimately have "card (dom (blocks bd)) - layer_of bd c < card (dom (blocks bd)) - layer_of bd p"
          by simp
        from less.hyps [OF this cd False c(2)] e show ?thesis by (auto intro: trancl_into_trancl2)
      qed
    qed
  qed
  have V: "V = dom (blocks bd) - {h} - past_set bd h"
    using st' all by (auto simp: past)
  have "set ac = dom (blocks bd) - {h} - future_set bd h - past_set bd h"
    using st' V F by auto
  then show ?thesis using fr F run st' by blast
qed

lemma dag_partition:
  assumes inv: "dag_inv bd" and b: "blocks bd h = Some b"
  shows "h \<notin> future_set bd h" "h \<notin> past_set bd h" "future_set bd h \<inter> past_set bd h = {}"
    "future_set bd h \<subseteq> dom (blocks bd)" "past_set bd h \<subseteq> dom (blocks bd)"
proof -
  note ac = child_edges_acyclic [OF inv]
  note past = past_set_child_edges [OF inv]
  show "h \<notin> future_set bd h" using ac by (simp add: future_set_def)
  show "h \<notin> past_set bd h" using ac by (simp add: past)
  show "future_set bd h \<inter> past_set bd h = {}"
  proof (rule ccontr)
    assume "future_set bd h \<inter> past_set bd h \<noteq> {}"
    then obtain x where "(h, x) \<in> (child_edges bd)\<^sup>+" "(x, h) \<in> (child_edges bd)\<^sup>+"
      by (auto simp: past future_set_def)
    then have "(h, h) \<in> (child_edges bd)\<^sup>+" by (auto intro: trancl_trans)
    with ac show False by blast
  qed
  show "future_set bd h \<subseteq> dom (blocks bd)"
    using child_path_dom(2) [OF inv] by (auto simp: future_set_def)
  show "past_set bd h \<subseteq> dom (blocks bd)"
    using child_path_dom(1) [OF inv] by (auto simp: past)
qed

text \<open>
  C4. After any sequence of \<open>AddBlock\<close> calls on a new DAG, for every block b of the
  DAG, \<open>GetFutureSet\<close> returns the future set of b and \<open>GetAnticone(b, nil)\<close> returns
  exactly the blocks that are neither b, nor descendants, nor ancestors of b, once the
  bound on the depth of the recursion exceeds the number of blocks. The anticone holds no
  element of the future set, not b itself and no ancestor of b, and together with the
  future set, the past set and b it partitions the set of blocks.
\<close>

theorem GetAnticone_exact:
  assumes "keeps_skeleton inst" and "is_new bd0" and "length ds < 2 ^ 64"
    and "bd = AddBlocks inst bd0 ds"
    and "blocks bd h = Some b" and "card (dom (blocks bd)) < n"
  shows "\<exists>fs ac. GetFutureSet n bd NewHashSet (Some b) = Inr fs \<and> set fs = future_set bd h \<and>
     GetAnticone n bd b None = Inr ac \<and> distinct ac \<and>
     set ac = dom (blocks bd) - {h} - future_set bd h - past_set bd h \<and>
     set ac \<inter> set fs = {} \<and> h \<notin> set ac \<and> set ac \<inter> past_set bd h = {} \<and>
     h \<notin> future_set bd h \<and> h \<notin> past_set bd h \<and> future_set bd h \<inter> past_set bd h = {} \<and>
     set ac \<union> future_set bd h \<union> past_set bd h \<union> {h} = dom (blocks bd)"
proof -
  have inv: "dag_inv bd" using new_run_inv [OF assms(1-3)] assms(4) by simp
  from GetAnticone_correct [OF inv assms(5,6)] obtain fs ac where
    r: "GetFutureSet n bd NewHashSet (Some b) = Inr fs" "set fs = future_set bd h"
     "GetAnticone n bd b None = Inr ac" "distinct ac"
     "set ac = dom (blocks bd) - {h} - future_set bd h - past_set bd h"
    by blast
  note p = dag_partition [OF inv assms(5)]
  have hd: "h \<in> dom (blocks bd)" using assms(5) by auto
  have u: "set ac \<union> future_set bd h \<union> past_set bd h \<union> {h} = dom (blocks bd)"
    using r(5) p(4,5) hd by auto
  show ?thesis using r p u by (intro exI [of _ fs] exI [of _ ac]) auto
qed

theorem GetAnticone_exact_witness:
  "GetFutureSet 5 diamond NewHashSet (blocks diamond 2) = Inr [4] \<and>
   GetAnticone 5 diamond (the (blocks diamond 2)) None = Inr [3] \<and>
   future_set diamond 2 = {4} \<and>
   dom (blocks diamond) - {2} - future_set diamond 2 - past_set diamond 2 = {3}"
proof -
  have l: "length [blockData 1 [], blockData 2 [1], blockData 3 [1], blockData 4 [2, 3]] < (2 :: nat) ^ 64" by simp
  have bn: "blocks diamond 2 \<noteq> None" by code_simp
  then obtain b where b: "blocks diamond 2 = Some b" by auto
  have f: "GetFutureSet 5 diamond NewHashSet (blocks diamond 2) = Inr [4]" by code_simp
  have a: "GetAnticone 5 diamond (the (blocks diamond 2)) None = Inr [3]" by code_simp
  have inv: "dag_inv diamond" using new_run_inv [OF chain_keeps_skeleton new_dag_is_new l] by (simp add: diamond_def)
  have "unat (blockTotal diamond) = card (dom (blocks diamond))" using inv unfolding dag_inv_def by blast
  moreover have "unat (blockTotal diamond) = 4" by code_simp
  ultimately have c: "card (dom (blocks diamond)) < 5" by simp
  from GetAnticone_exact [OF chain_keeps_skeleton new_dag_is_new l diamond_def b c] f a b
  show ?thesis by auto
qed

end
